theory Spec2Isabelle
  imports Main "HOL-Library.Word"
begin

unbundle bit_operations_syntax

section \<open>The append-only record store of \<open>internal/server/log/store.go\<close>\<close>

text \<open>
  The store wraps an \<open>*os.File\<close> and a \<open>*bufio.Writer\<close> over that same file.
  The Go packages \<open>os\<close>, \<open>bufio\<close> and \<open>encoding/binary\<close> are modelled first, as
  far as the store calls them; then the five functions of \<open>store.go\<close> follow the
  source statement by statement.  Every operation of the store runs under the
  store's mutex, so an operation is one atomic state transformer: it takes the file
  system and the store and returns its Go results with the new file system and the
  new store.
\<close>

type_synonym byte = "8 word"
type_synonym uint64 = "64 word"
type_synonym int64 = "64 word"

subsection \<open>Errors\<close>

text \<open>
  The values of Go's \<open>error\<close> that can reach the store, and the one run-time panic
  of \<open>Read\<close> (\<open>make\<close> with a length out of range), kept apart by \<open>is_panic\<close>.
\<close>

datatype error =
    ErrNotExist
  | ErrClosed
  | ErrNoSpace
  | ErrNegativeOffset
  | ErrShortWrite
  | EOF
  | PanicLenOutOfRange

definition is_panic :: "error \<Rightarrow> bool" where
  "is_panic e = (e = PanicLenOutOfRange)"

subsection \<open>The file system and \<open>os.File\<close>\<close>

text \<open>
  A file system maps path names to inodes and inodes to their bytes.  \<open>quota\<close> is
  the largest length a file may reach: a write that would pass it stores the bytes
  that fit and fails with \<open>ErrNoSpace\<close> (a full disk, or the file size limit).
  Reads of an open file never fail but at the end of the data.
\<close>

record filesys =
  paths :: "string \<Rightarrow> nat option"
  inodes :: "nat \<Rightarrow> byte list"
  quota :: nat

text \<open>
  An open file handle: the name it was opened under, its inode, the cursor that
  \<open>Write\<close> advances, the \<open>O_APPEND\<close> flag and whether \<open>Close\<close> has been called.
\<close>

record File =
  fname :: string
  fino :: nat
  foffset :: nat
  fappend :: bool
  fclosed :: bool

text \<open>\<open>os.Stat(name)\<close>, of which the store reads \<open>Size()\<close> only.\<close>

definition os_Stat :: "filesys \<Rightarrow> string \<Rightarrow> error + nat" where
  "os_Stat fs nm =
     (case paths fs nm of
        None \<Rightarrow> Inl ErrNotExist
      | Some i \<Rightarrow> Inr (length (inodes fs i)))"

text \<open>
  The bytes of a file after \<open>b\<close> is stored at offset \<open>at\<close>: a gap past the old end
  is filled with zeroes; storing nothing changes nothing.
\<close>

definition pwrite :: "byte list \<Rightarrow> nat \<Rightarrow> byte list \<Rightarrow> byte list" where
  "pwrite c at b =
     (if b = [] then c
      else take at c @ replicate (at - length c) 0 @ b @ drop (at + length b) c)"

text \<open>Where the next \<open>Write\<close> of a handle lands.\<close>

definition write_pos :: "filesys \<Rightarrow> File \<Rightarrow> nat" where
  "write_pos fs f = (if fappend f then length (inodes fs (fino f)) else foffset f)"

text \<open>
  \<open>(*os.File).Write(b)\<close>: returns the number of bytes stored and the error.
  On a closed handle nothing is stored.
\<close>

definition File_Write ::
  "filesys \<Rightarrow> File \<Rightarrow> byte list \<Rightarrow> (nat \<times> error option) \<times> filesys \<times> File" where
  "File_Write fs f b =
     (if fclosed f then ((0, Some ErrClosed), fs, f)
      else
        let at = write_pos fs f;
            k = min (length b) (quota fs - at);
            c' = pwrite (inodes fs (fino f)) at (take k b)
        in ((k, if k < length b then Some ErrNoSpace else None),
            fs\<lparr>inodes := (inodes fs)(fino f := c')\<rparr>,
            f\<lparr>foffset := at + k\<rparr>))"

text \<open>
  \<open>(*os.File).ReadAt(b, off)\<close>: the destination after the call, the number of
  bytes read and the error.  A negative offset is refused first; an empty
  destination then returns at once, before the descriptor is touched; fewer bytes
  than \<open>len(b)\<close> is \<open>EOF\<close>.
\<close>

definition File_ReadAt ::
  "filesys \<Rightarrow> File \<Rightarrow> byte list \<Rightarrow> int64 \<Rightarrow> byte list \<times> nat \<times> error option" where
  "File_ReadAt fs f b off =
     (if sint off < 0 then (b, 0, Some ErrNegativeOffset)
      else if b = [] then (b, 0, None)
      else if fclosed f then (b, 0, Some ErrClosed)
      else
        let d = take (length b) (drop (nat (sint off)) (inodes fs (fino f)))
        in (d @ drop (length d) b, length d,
            if length d < length b then Some EOF else None))"

text \<open>\<open>(*os.File).Close()\<close>.\<close>

definition File_Close :: "File \<Rightarrow> error option \<times> File" where
  "File_Close f =
     (if fclosed f then (Some ErrClosed, f) else (None, f\<lparr>fclosed := True\<rparr>))"

subsection \<open>\<open>bufio.Writer\<close>\<close>

text \<open>
  \<open>wbuf\<close> is \<open>buf[0:n]\<close>, the bytes buffered and not yet written; \<open>werr\<close> is the
  sticky error.  The writer's destination is the store's file, passed to each
  function and returned with it.
\<close>

record Writer =
  wbuf :: "byte list"
  werr :: "error option"

definition defaultBufSize :: nat where
  "defaultBufSize = 4096"

definition NewWriter :: Writer where
  "NewWriter = \<lparr>wbuf = [], werr = None\<rparr>"

definition Available :: "Writer \<Rightarrow> nat" where
  "Available b = defaultBufSize - length (wbuf b)"

definition Buffered :: "Writer \<Rightarrow> nat" where
  "Buffered b = length (wbuf b)"

definition Writer_Flush ::
  "filesys \<Rightarrow> File \<Rightarrow> Writer \<Rightarrow> error option \<times> filesys \<times> File \<times> Writer" where
  "Writer_Flush fs f b =
     (case werr b of
        Some e \<Rightarrow> (Some e, fs, f, b)
      | None \<Rightarrow>
          if Buffered b = 0 then (None, fs, f, b)
          else
            (case File_Write fs f (wbuf b) of
               ((n, err0), fs', f') \<Rightarrow>
                 (case (if n < Buffered b \<and> err0 = None then Some ErrShortWrite else err0) of
                    Some e \<Rightarrow> (Some e, fs', f', b\<lparr>wbuf := drop n (wbuf b), werr := Some e\<rparr>)
                  | None \<Rightarrow> (None, fs', f', b\<lparr>wbuf := []\<rparr>))))"

text \<open>
  One turn of the loop of \<open>(*bufio.Writer).Write\<close>: with an empty buffer the
  bytes go straight to the file; otherwise the buffer is filled and flushed.
  Returns the number of bytes of \<open>p\<close> consumed.
\<close>

definition Write_iter ::
  "filesys \<Rightarrow> File \<Rightarrow> Writer \<Rightarrow> byte list \<Rightarrow> nat \<times> filesys \<times> File \<times> Writer" where
  "Write_iter fs f b p =
     (if Buffered b = 0 then
        (case File_Write fs f p of
           ((n, e), fs', f') \<Rightarrow> (n, fs', f', b\<lparr>werr := e\<rparr>))
      else
        let n = min (Available b) (length p);
            b1 = b\<lparr>wbuf := wbuf b @ take n p\<rparr>
        in (case Writer_Flush fs f b1 of
              (_, fs', f', b2) \<Rightarrow> (n, fs', f', b2)))"

text \<open>
  The loop of \<open>Write\<close>: while \<open>p\<close> does not fit in the buffer and no error has
  been met.  It returns \<open>nn\<close>, what is left of \<open>p\<close>, and the state.
\<close>

function Write_loop ::
  "filesys \<Rightarrow> File \<Rightarrow> Writer \<Rightarrow> byte list \<Rightarrow> nat \<Rightarrow>
     nat \<times> byte list \<times> filesys \<times> File \<times> Writer" where
  "Write_loop fs f b p nn =
     (if length p > Available b \<and> werr b = None then
        (case Write_iter fs f b p of
           (n, fs', f', b') \<Rightarrow> Write_loop fs' f' b' (drop n p) (nn + n))
      else (nn, p, fs, f, b))"
  by pat_completeness auto
termination
  apply (relation "measure (\<lambda>(fs, f, b, p, nn).
           if werr b \<noteq> None then 0 else 2 * length p + (if wbuf b = [] then 0 else 1))")
   apply simp
  subgoal for fs f b p nn x n xa ya xb yb
    by (auto simp: Write_iter_def Writer_Flush_def File_Write_def Buffered_def Available_def
          Let_def split: if_splits prod.splits option.splits)
  done

declare Write_loop.simps [simp del]

text \<open>\<open>(*bufio.Writer).Write(p)\<close>: the loop, then the rest of \<open>p\<close> is copied into the buffer.\<close>

definition Writer_Write ::
  "filesys \<Rightarrow> File \<Rightarrow> Writer \<Rightarrow> byte list \<Rightarrow>
     (nat \<times> error option) \<times> filesys \<times> File \<times> Writer" where
  "Writer_Write fs f b p =
     (case Write_loop fs f b p 0 of
        (nn, p', fs', f', b') \<Rightarrow>
          (case werr b' of
             Some e \<Rightarrow> ((nn, Some e), fs', f', b')
           | None \<Rightarrow>
               let n = min (Available b') (length p')
               in ((nn + n, None), fs', f', b'\<lparr>wbuf := wbuf b' @ take n p'\<rparr>)))"

subsection \<open>\<open>encoding/binary\<close>, big endian\<close>

definition PutUint64 :: "uint64 \<Rightarrow> byte list" where
  "PutUint64 v =
     [ucast (drop_bit 56 v), ucast (drop_bit 48 v), ucast (drop_bit 40 v), ucast (drop_bit 32 v),
      ucast (drop_bit 24 v), ucast (drop_bit 16 v), ucast (drop_bit 8 v), ucast v]"

definition Uint64 :: "byte list \<Rightarrow> uint64" where
  "Uint64 b =
     ucast (b ! 7) OR push_bit 8 (ucast (b ! 6)) OR push_bit 16 (ucast (b ! 5)) OR
     push_bit 24 (ucast (b ! 4)) OR push_bit 32 (ucast (b ! 3)) OR push_bit 40 (ucast (b ! 2)) OR
     push_bit 48 (ucast (b ! 1)) OR push_bit 56 (ucast (b ! 0))"

text \<open>\<open>binary.Write(w, enc, v)\<close> for a \<open>uint64\<close>: its eight bytes in one \<open>Write\<close>.\<close>

definition binary_Write ::
  "filesys \<Rightarrow> File \<Rightarrow> Writer \<Rightarrow> uint64 \<Rightarrow> error option \<times> filesys \<times> File \<times> Writer" where
  "binary_Write fs f b v =
     (case Writer_Write fs f b (PutUint64 v) of
        ((_, err), fs', f', b') \<Rightarrow> (err, fs', f', b'))"

subsection \<open>The store\<close>

definition lenWidth :: nat where
  "lenWidth = 8"

text \<open>
  The largest length \<open>make([]byte, n)\<close> accepts (the run time's \<open>maxAlloc\<close> on
  64-bit Linux); beyond it \<open>make\<close> panics.
\<close>

definition maxAlloc :: nat where
  "maxAlloc = 2 ^ 48"

text \<open>
  The struct \<open>store\<close>.  The embedded \<open>*os.File\<close> and the writer's destination
  are one and the same file, so it is held once, in \<open>file_s\<close>.  The mutex has no
  field: every function below is one critical section.
\<close>

record store =
  file_s :: File
  buf :: Writer
  size_s :: uint64

definition newStore :: "filesys \<Rightarrow> File \<Rightarrow> error + store" where
  "newStore fs f =
     (case os_Stat fs (fname f) of
        Inl err \<Rightarrow> Inl err
      | Inr fi_Size \<Rightarrow> Inr \<lparr>file_s = f, buf = NewWriter, size_s = of_nat fi_Size\<rparr>)"

text \<open>\<open>Append\<close> returns \<open>(n, pos, err)\<close>.\<close>

definition Append ::
  "filesys \<Rightarrow> store \<Rightarrow> byte list \<Rightarrow> (uint64 \<times> uint64 \<times> error option) \<times> filesys \<times> store" where
  "Append fs s p =
     (let pos = size_s s in
      case binary_Write fs (file_s s) (buf s) (of_nat (length p)) of
        (Some err, fs1, f1, b1) \<Rightarrow> ((0, 0, Some err), fs1, s\<lparr>file_s := f1, buf := b1\<rparr>)
      | (None, fs1, f1, b1) \<Rightarrow>
          (case Writer_Write fs1 f1 b1 p of
             ((w, Some err), fs2, f2, b2) \<Rightarrow> ((0, 0, Some err), fs2, s\<lparr>file_s := f2, buf := b2\<rparr>)
           | ((w, None), fs2, f2, b2) \<Rightarrow>
               let w' = w + lenWidth
               in ((of_nat w', pos, None), fs2,
                   s\<lparr>file_s := f2, buf := b2, size_s := size_s s + of_nat w'\<rparr>)))"

text \<open>\<open>Read\<close> returns the record, or the error in place of \<open>(nil, err)\<close>.\<close>

definition Read ::
  "filesys \<Rightarrow> store \<Rightarrow> uint64 \<Rightarrow> (error + byte list) \<times> filesys \<times> store" where
  "Read fs s pos =
     (case Writer_Flush fs (file_s s) (buf s) of
        (Some err, fs1, f1, b1) \<Rightarrow> (Inl err, fs1, s\<lparr>file_s := f1, buf := b1\<rparr>)
      | (None, fs1, f1, b1) \<Rightarrow>
          (let s1 = s\<lparr>file_s := f1, buf := b1\<rparr> in
           case File_ReadAt fs1 f1 (replicate lenWidth 0) pos of
             (_, _, Some err) \<Rightarrow> (Inl err, fs1, s1)
           | (size_bytes, _, None) \<Rightarrow>
               let recordSize = Uint64 size_bytes in
               if maxAlloc < unat recordSize then (Inl PanicLenOutOfRange, fs1, s1)
               else
                 (case File_ReadAt fs1 f1 (replicate (unat recordSize) 0) (pos + of_nat lenWidth) of
                    (_, _, Some err) \<Rightarrow> (Inl err, fs1, s1)
                  | (record_bytes, _, None) \<Rightarrow> (Inr record_bytes, fs1, s1))))"

text \<open>\<open>ReadAt\<close> returns the destination \<open>p\<close> after the call with \<open>(n, err)\<close>.\<close>

definition ReadAt ::
  "filesys \<Rightarrow> store \<Rightarrow> byte list \<Rightarrow> int64 \<Rightarrow>
     (byte list \<times> nat \<times> error option) \<times> filesys \<times> store" where
  "ReadAt fs s p off =
     (case Writer_Flush fs (file_s s) (buf s) of
        (Some err, fs1, f1, b1) \<Rightarrow> ((p, 0, Some err), fs1, s\<lparr>file_s := f1, buf := b1\<rparr>)
      | (None, fs1, f1, b1) \<Rightarrow> (File_ReadAt fs1 f1 p off, fs1, s\<lparr>file_s := f1, buf := b1\<rparr>))"

definition Close :: "filesys \<Rightarrow> store \<Rightarrow> error option \<times> filesys \<times> store" where
  "Close fs s =
     (case Writer_Flush fs (file_s s) (buf s) of
        (Some err, fs1, f1, b1) \<Rightarrow> (Some err, fs1, s\<lparr>file_s := f1, buf := b1\<rparr>)
      | (None, fs1, f1, b1) \<Rightarrow>
          (case File_Close f1 of
             (err, f2) \<Rightarrow> (err, fs1, s\<lparr>file_s := f2, buf := b1\<rparr>)))"

section \<open>Notions used to state the properties\<close>

text \<open>
  What the file holds once the bytes \<open>w\<close> are written through the handle: for the
  writer's buffer, the contents the file will have when the buffer is flushed.
\<close>

definition pending :: "filesys \<Rightarrow> File \<Rightarrow> byte list \<Rightarrow> byte list" where
  "pending fs f w = pwrite (inodes fs (fino f)) (write_pos fs f) w"

text \<open>
  The handle writes at the end of its file: it was opened with \<open>O_APPEND\<close>, or its
  cursor stands at the end (a new file, or a handle moved there).
\<close>

definition positioned :: "filesys \<Rightarrow> File \<Rightarrow> bool" where
  "positioned fs f \<longleftrightarrow> write_pos fs f = length (inodes fs (fino f))"

text \<open>
  \<open>appended fs f b x fs' f' b'\<close>: from \<open>(fs, f, b)\<close> to \<open>(fs', f', b')\<close> the bytes
  \<open>x\<close> were added behind the buffered ones, some of them written out; the handle
  kept its identity and flags, no other file changed, and a file within the quota
  stayed within it.
\<close>

definition appended ::
  "filesys \<Rightarrow> File \<Rightarrow> Writer \<Rightarrow> byte list \<Rightarrow> filesys \<Rightarrow> File \<Rightarrow> Writer \<Rightarrow> bool" where
  "appended fs f b x fs' f' b' \<longleftrightarrow>
     fino f' = fino f \<and> fclosed f' = fclosed f \<and> fappend f' = fappend f \<and> fname f' = fname f \<and>
     paths fs' = paths fs \<and> quota fs' = quota fs \<and>
     (\<forall>i. i \<noteq> fino f \<longrightarrow> inodes fs' i = inodes fs i) \<and>
     (positioned fs f \<longrightarrow> positioned fs' f') \<and>
     (length (inodes fs (fino f)) \<le> quota fs \<longrightarrow> length (inodes fs' (fino f')) \<le> quota fs') \<and>
     pending fs' f' (wbuf b') = pending fs f (wbuf b @ x) \<and>
     write_pos fs' f' + length (wbuf b') = write_pos fs f + length (wbuf b) + length x"

text \<open>The stream of a store: the bytes of its file followed by the buffered ones.\<close>

definition stream :: "filesys \<Rightarrow> store \<Rightarrow> byte list" where
  "stream fs s = inodes fs (fino (file_s s)) @ wbuf (buf s)"

text \<open>
  A store in working order: open, no write has failed, the handle writes at the
  end of the file, \<open>size\<close> counts the file and the buffer, and the storage has room
  for what is buffered.  A file is shorter than \<open>2 ^ 63\<close> bytes (its length is an
  \<open>int64\<close>).
\<close>

definition store_ok :: "filesys \<Rightarrow> store \<Rightarrow> bool" where
  "store_ok fs s \<longleftrightarrow>
     \<not> fclosed (file_s s) \<and> werr (buf s) = None \<and>
     length (wbuf (buf s)) \<le> defaultBufSize \<and>
     positioned fs (file_s s) \<and>
     unat (size_s s) = length (stream fs s) \<and>
     length (stream fs s) \<le> quota fs \<and> quota fs < 2 ^ 63"

text \<open>A file system with one empty file and the quota \<open>q\<close>, a fresh handle on it, and its store.\<close>

definition empty_fs :: "nat \<Rightarrow> filesys" where
  "empty_fs q = \<lparr>paths = (\<lambda>_. None)(''segment'' := Some 0), inodes = (\<lambda>_. []), quota = q\<rparr>"

definition handle0 :: File where
  "handle0 = \<lparr>fname = ''segment'', fino = 0, foffset = 0, fappend = False, fclosed = False\<rparr>"

definition store0 :: store where
  "store0 = \<lparr>file_s = handle0, buf = NewWriter, size_s = 0\<rparr>"

text \<open>The three results of \<open>Append\<close>, by name.\<close>

definition n_of :: "uint64 \<times> uint64 \<times> error option \<Rightarrow> uint64" where
  "n_of r = fst r"

definition pos_of :: "uint64 \<times> uint64 \<times> error option \<Rightarrow> uint64" where
  "pos_of r = fst (snd r)"

definition err_of :: "uint64 \<times> uint64 \<times> error option \<Rightarrow> error option" where
  "err_of r = snd (snd r)"

text \<open>A run of \<open>Append\<close> calls on one store, with all their results.\<close>

fun Appends ::
  "filesys \<Rightarrow> store \<Rightarrow> byte list list \<Rightarrow> (uint64 \<times> uint64 \<times> error option) list \<times> filesys \<times> store" where
  "Appends fs s [] = ([], fs, s)"
| "Appends fs s (p # ps) =
     (case Append fs s p of
        (r, fs1, s1) \<Rightarrow>
          (case Appends fs1 s1 ps of
             (rs, fs2, s2) \<Rightarrow> (r # rs, fs2, s2)))"

text \<open>The operations of the store, and a run of them with the error each returns.\<close>

datatype op = OpAppend "byte list" | OpRead uint64 | OpReadAt "byte list" int64 | OpClose

fun exec :: "op \<Rightarrow> filesys \<Rightarrow> store \<Rightarrow> error option \<times> filesys \<times> store" where
  "exec (OpAppend p) fs s = (case Append fs s p of ((n, pos, err), fs', s') \<Rightarrow> (err, fs', s'))"
| "exec (OpRead pos) fs s =
     (case Read fs s pos of
        (Inl err, fs', s') \<Rightarrow> (Some err, fs', s')
      | (Inr record_bytes, fs', s') \<Rightarrow> (None, fs', s'))"
| "exec (OpReadAt p off) fs s = (case ReadAt fs s p off of ((p', n, err), fs', s') \<Rightarrow> (err, fs', s'))"
| "exec OpClose fs s = Close fs s"

fun run :: "op list \<Rightarrow> filesys \<Rightarrow> store \<Rightarrow> error option list \<times> filesys \<times> store" where
  "run [] fs s = ([], fs, s)"
| "run (x # xs) fs s =
     (case exec x fs s of
        (e, fs1, s1) \<Rightarrow>
          (case run xs fs1 s1 of
             (es, fs2, s2) \<Rightarrow> (e # es, fs2, s2)))"

text \<open>What a call adds to \<open>size\<close>: \<open>8 + len p\<close> for a successful \<open>Append p\<close>.\<close>

definition appended_bytes :: "op \<Rightarrow> error option \<Rightarrow> uint64" where
  "appended_bytes x e = (case (x, e) of (OpAppend p, None) \<Rightarrow> 8 + of_nat (length p) | _ \<Rightarrow> 0)"

definition failed_append :: "op \<Rightarrow> error option \<Rightarrow> bool" where
  "failed_append x e = (case x of OpAppend p \<Rightarrow> e \<noteq> None | _ \<Rightarrow> False)"

text \<open>
  \<open>size\<close> counts no more than the stream holds, for a handle that writes at the
  end of a file within the quota.
\<close>

definition accounted :: "filesys \<Rightarrow> store \<Rightarrow> bool" where
  "accounted fs s \<longleftrightarrow>
     positioned fs (file_s s) \<and> length (wbuf (buf s)) \<le> defaultBufSize \<and>
     length (inodes fs (fino (file_s s))) \<le> quota fs \<and> quota fs < 2 ^ 63 \<and>
     unat (size_s s) \<le> length (stream fs s)"

section \<open>The library model: files and the buffered writer\<close>

lemma pwrite_Nil [simp]: "pwrite c at [] = c"
  by (simp add: pwrite_def)

lemma pwrite_end [simp]: "pwrite c (length c) b = c @ b"
  by (simp add: pwrite_def)

lemma length_pwrite: "b \<noteq> [] \<Longrightarrow> length (pwrite c at b) = max (length c) (at + length b)"
  by (auto simp: pwrite_def)

lemma pwrite_split: "pwrite (pwrite c at b1) (at + length b1) b2 = pwrite c at (b1 @ b2)"
proof (cases "b1 = [] \<or> b2 = []")
  case True
  then show ?thesis by auto
next
  case False
  then have b1: "b1 \<noteq> []" and b2: "b2 \<noteq> []" by auto
  define h where "h = take at c @ replicate (at - length c) 0"
  have lh: "length h = at" by (auto simp: h_def)
  have c1: "pwrite c at b1 = h @ b1 @ drop (at + length b1) c"
    using b1 by (simp add: pwrite_def h_def)
  have "pwrite (h @ b1 @ drop (at + length b1) c) (at + length b1) b2
      = h @ b1 @ b2 @ drop (at + length b1 + length b2) c"
    using b2 lh by (simp add: pwrite_def add.commute add.left_commute)
  moreover have "pwrite c at (b1 @ b2) = h @ b1 @ b2 @ drop (at + length b1 + length b2) c"
    using b1 by (simp add: pwrite_def h_def add.assoc)
  ultimately show ?thesis using c1 by simp
qed

lemma File_Write_frame:
  assumes "File_Write fs f b = ((n, e), fs', f')"
  shows "fino f' = fino f" "fclosed f' = fclosed f" "fappend f' = fappend f" "fname f' = fname f"
    "paths fs' = paths fs" "quota fs' = quota fs" "n \<le> length b" "e = None \<Longrightarrow> n = length b"
    "i \<noteq> fino f \<Longrightarrow> inodes fs' i = inodes fs i"
  using assms by (auto simp: File_Write_def Let_def split: if_splits)

lemma File_Write_write_pos:
  assumes "File_Write fs f b = ((n, e), fs', f')"
  shows "write_pos fs' f' = write_pos fs f + n"
  using assms
  by (auto simp: File_Write_def Let_def write_pos_def pwrite_def split: if_splits)

lemma File_Write_inode:
  assumes "File_Write fs f b = ((n, e), fs', f')"
  shows "inodes fs' (fino f) = pwrite (inodes fs (fino f)) (write_pos fs f) (take n b)"
  using assms
  by (auto simp: File_Write_def Let_def split: if_splits)

lemma File_Write_positioned:
  assumes "File_Write fs f b = ((n, e), fs', f')" "positioned fs f"
  shows "positioned fs' f'"
  using assms
  by (auto simp: File_Write_def Let_def write_pos_def positioned_def split: if_splits)

lemma File_Write_quota:
  assumes "File_Write fs f b = ((n, e), fs', f')" "length (inodes fs (fino f)) \<le> quota fs"
  shows "length (inodes fs' (fino f')) \<le> quota fs'"
proof (cases "fclosed f \<or> take n b = []")
  case True
  with assms show ?thesis
    by (auto simp: File_Write_def Let_def split: if_splits)
next
  case False
  then have nz: "0 < n" by auto
  from assms(1) False have n: "n = min (length b) (quota fs - write_pos fs f)"
    and c: "inodes fs' (fino f') = pwrite (inodes fs (fino f)) (write_pos fs f) (take n b)"
    and q: "quota fs' = quota fs"
    by (auto simp: File_Write_def Let_def split: if_splits)
  have "write_pos fs f + n \<le> quota fs" using n nz by arith
  moreover have "length (take n b) = n" using n by simp
  ultimately show ?thesis
    using False assms(2) c q by (simp add: length_pwrite)
qed

lemma File_Write_pending:
  assumes "File_Write fs f b = ((n, e), fs', f')"
  shows "pending fs' f' (drop n b) = pending fs f b"
proof -
  have n: "length (take n b) = n" using File_Write_frame(7) [OF assms] by simp
  have "pending fs' f' (drop n b)
      = pwrite (pwrite (inodes fs (fino f)) (write_pos fs f) (take n b)) (write_pos fs f + n) (drop n b)"
    by (simp add: pending_def File_Write_frame(1) [OF assms] File_Write_write_pos [OF assms]
        File_Write_inode [OF assms])
  also have "\<dots> = pwrite (inodes fs (fino f)) (write_pos fs f) (take n b @ drop n b)"
    using pwrite_split [of "inodes fs (fino f)" "write_pos fs f" "take n b" "drop n b"] n by simp
  finally show ?thesis by (simp add: pending_def)
qed

lemma pending_append:
  "pending fs f (w @ x) = pwrite (pending fs f w) (write_pos fs f + length w) x"
  by (simp add: pending_def pwrite_split)

lemma appended_refl: "appended fs f b [] fs f b"
  by (simp add: appended_def)

lemma appended_trans:
  assumes "appended fs f b x fs1 f1 b1" "appended fs1 f1 b1 y fs2 f2 b2"
  shows "appended fs f b (x @ y) fs2 f2 b2"
proof -
  have "pending fs2 f2 (wbuf b2) = pwrite (pending fs1 f1 (wbuf b1)) (write_pos fs1 f1 + length (wbuf b1)) y"
    using assms(2) by (simp add: appended_def pending_append)
  also have "\<dots> = pwrite (pending fs f (wbuf b @ x)) (write_pos fs f + length (wbuf b @ x)) y"
    using assms(1) by (simp add: appended_def add.assoc)
  also have "\<dots> = pending fs f (wbuf b @ x @ y)"
    using pending_append [of fs f "wbuf b @ x" y] by simp
  finally show ?thesis
    using assms by (auto simp: appended_def)
qed

lemma appended_buffer: "appended fs f b x fs f (b\<lparr>wbuf := wbuf b @ x\<rparr>)"
  by (simp add: appended_def)

lemma File_Write_appended:
  assumes "File_Write fs f w = ((n, e), fs', f')"
  shows "appended fs f \<lparr>wbuf = w, werr = r\<rparr> [] fs' f' \<lparr>wbuf = drop n w, werr = r'\<rparr>"
  using File_Write_frame [OF assms] File_Write_pending [OF assms] File_Write_write_pos [OF assms]
    File_Write_positioned [OF assms] File_Write_quota [OF assms]
  by (simp add: appended_def)

lemma Flush_appended:
  assumes "Writer_Flush fs f b = (e, fs', f', b')"
  shows "appended fs f b [] fs' f' b'"
proof (cases "werr b = None \<and> Buffered b \<noteq> 0")
  case False
  with assms show ?thesis
    by (auto simp: Writer_Flush_def appended_refl split: option.splits)
next
  case True
  obtain n e0 where fw: "File_Write fs f (wbuf b) = ((n, e0), fs', f')"
    using assms True by (auto simp: Writer_Flush_def split: prod.splits option.splits if_splits)
  have w: "wbuf b' = drop n (wbuf b)"
    using assms True fw File_Write_frame(7,8) [OF fw]
    by (auto simp: Writer_Flush_def Buffered_def split: prod.splits option.splits if_splits)
  show ?thesis
    using File_Write_appended [OF fw, where r = "werr b" and r' = "werr b'"] w
    by (auto simp: appended_def)
qed

lemma Flush_werr:
  assumes "Writer_Flush fs f b = (e, fs', f', b')"
  shows "werr b' = e" "e = None \<Longrightarrow> wbuf b' = [] \<and> werr b = None"
    "length (wbuf b') \<le> length (wbuf b)"
  using assms
  by (auto simp: Writer_Flush_def Buffered_def split: option.splits if_splits prod.splits)

lemma Write_iter_appended:
  assumes "Write_iter fs f b p = (n, fs', f', b')"
  shows "appended fs f b (take n p) fs' f' b'" "n \<le> length p"
    "length (wbuf b) \<le> defaultBufSize \<Longrightarrow> length (wbuf b') \<le> defaultBufSize"
proof -
  show "appended fs f b (take n p) fs' f' b'"
  proof (cases "Buffered b = 0")
    case True
    then obtain e where fw: "File_Write fs f p = ((n, e), fs', f')" and b': "b' = b\<lparr>werr := e\<rparr>"
      using assms by (auto simp: Write_iter_def split: prod.splits)
    have "pending fs' f' [] = pending fs f (take n p)"
      by (simp add: pending_def File_Write_inode [OF fw] File_Write_frame(1) [OF fw])
    then show ?thesis
      using True b' File_Write_frame [OF fw] File_Write_write_pos [OF fw]
        File_Write_positioned [OF fw] File_Write_quota [OF fw]
      by (simp add: Buffered_def appended_def)
  next
    case False
    then obtain e where fl: "Writer_Flush fs f (b\<lparr>wbuf := wbuf b @ take n p\<rparr>) = (e, fs', f', b')"
      using assms by (auto simp: Write_iter_def Let_def split: prod.splits)
    show ?thesis
      using appended_trans [OF appended_buffer [of fs f b "take n p"] Flush_appended [OF fl]] by simp
  qed
  show "n \<le> length p"
    using assms
    by (auto simp: Write_iter_def Let_def split: if_splits prod.splits dest: File_Write_frame)
  show "length (wbuf b') \<le> defaultBufSize" if "length (wbuf b) \<le> defaultBufSize"
    using assms that
    by (auto simp: Write_iter_def Buffered_def Available_def Let_def split: if_splits prod.splits
        dest!: Flush_werr(3))
qed

lemma Write_loop_stop:
  "\<not> (Available b < length p \<and> werr b = None) \<Longrightarrow> Write_loop fs f b p nn = (nn, p, fs, f, b)"
  by (subst Write_loop.simps) (auto simp del: Write_loop.simps)

lemma Write_loop_step:
  "Available b < length p \<Longrightarrow> werr b = None \<Longrightarrow>
   Write_loop fs f b p nn =
     (case Write_iter fs f b p of (n, fs', f', b') \<Rightarrow> Write_loop fs' f' b' (drop n p) (nn + n))"
  by (subst Write_loop.simps) (simp del: Write_loop.simps)

lemma Write_loop_props:
  assumes "Write_loop fs f b p nn = (nn', p', fs', f', b')"
  shows "(length (wbuf b) \<le> defaultBufSize \<longrightarrow> length (wbuf b') \<le> defaultBufSize) \<and>
    (werr b' = None \<longrightarrow> length p' \<le> Available b') \<and>
    (\<exists>k\<le>length p. nn' = nn + k \<and> p' = drop k p \<and> appended fs f b (take k p) fs' f' b')"
  using assms
proof (induction fs f b p nn rule: Write_loop.induct)
  case (1 fs f b p nn)
  show ?case
  proof (cases "Available b < length p \<and> werr b = None")
    case False
    with "1.prems" have "nn' = nn" "p' = p" "fs' = fs" "f' = f" "b' = b"
      by (simp_all add: Write_loop_stop)
    with False show ?thesis by (auto intro!: exI [of _ 0] simp: appended_refl)
  next
    case True
    obtain n fs1 f1 b1 where it: "Write_iter fs f b p = (n, fs1, f1, b1)"
      by (cases "Write_iter fs f b p") auto
    from True it "1.prems" have loop: "Write_loop fs1 f1 b1 (drop n p) (nn + n) = (nn', p', fs', f', b')"
      by (simp add: Write_loop_step)
    note IH = "1.IH" [OF True it [symmetric] refl refl loop]
    note fr = Write_iter_appended [OF it]
    from IH obtain k where k: "k \<le> length (drop n p)" "nn' = nn + n + k" "p' = drop k (drop n p)"
      "appended fs1 f1 b1 (take k (drop n p)) fs' f' b'"
      by auto
    have "appended fs f b (take n p @ take k (drop n p)) fs' f' b'"
      using appended_trans [OF fr(1) k(4)] .
    then have "appended fs f b (take (n + k) p) fs' f' b'"
      by (simp add: take_add)
    moreover have "n + k \<le> length p" using k(1) fr(2) by simp
    moreover have "p' = drop (n + k) p" using k(3) by (simp add: add.commute)
    ultimately show ?thesis using IH fr(3) k(2) by (auto simp: add.assoc)
  qed
qed

lemma Writer_Write_props:
  assumes "Writer_Write fs f b p = ((nn, e), fs', f', b')"
  shows "appended fs f b (take nn p) fs' f' b' \<and> nn \<le> length p \<and> (e = None \<longrightarrow> nn = length p) \<and>
    werr b' = e \<and> (length (wbuf b) \<le> defaultBufSize \<longrightarrow> length (wbuf b') \<le> defaultBufSize)"
proof -
  obtain n0 p0 fs0 f0 b0 where loop: "Write_loop fs f b p 0 = (n0, p0, fs0, f0, b0)"
    by (cases "Write_loop fs f b p 0") auto
  from Write_loop_props [OF loop] obtain k where k: "k \<le> length p" "n0 = k" "p0 = drop k p"
    "appended fs f b (take k p) fs0 f0 b0"
    and av: "werr b0 = None \<Longrightarrow> length p0 \<le> Available b0"
    and len: "length (wbuf b) \<le> defaultBufSize \<Longrightarrow> length (wbuf b0) \<le> defaultBufSize"
    by auto
  show ?thesis
  proof (cases "werr b0")
    case (Some e0)
    with assms loop have eq: "nn = n0" "e = Some e0" "fs' = fs0" "f' = f0" "b' = b0"
      by (simp_all add: Writer_Write_def)
    show ?thesis
      using eq k len Some by simp
  next
    case None
    from av [OF None] have m: "min (Available b0) (length p0) = length p0" by simp
    with None assms loop have eq: "nn = n0 + length p0" "e = None" "fs' = fs0" "f' = f0"
      "b' = b0\<lparr>wbuf := wbuf b0 @ p0\<rparr>"
      by (simp_all add: Writer_Write_def Let_def)
    have nn: "nn = length p" using eq(1) k by simp
    have "appended fs f b (take k p @ p0) fs0 f0 (b0\<lparr>wbuf := wbuf b0 @ p0\<rparr>)"
      using appended_trans [OF k(4) appended_buffer] .
    then have 1: "appended fs f b (take nn p) fs' f' b'" using eq nn k(3) by simp
    have 2: "length (wbuf b') \<le> defaultBufSize" if "length (wbuf b) \<le> defaultBufSize"
      using len [OF that] av [OF None] eq by (simp add: Available_def)
    show ?thesis using 1 2 nn eq None by simp
  qed
qed


section \<open>Words and the length prefix\<close>

lemma sint_eq_uint_small:
  fixes w :: "'a::len word"
  assumes "uint w < 2 ^ (LENGTH('a) - Suc 0)"
  shows "sint w = uint w"
proof -
  have "- (2 ^ (LENGTH('a) - Suc 0)) \<le> uint w"
    by (rule order_trans [of _ 0]) simp_all
  then have "signed_take_bit (LENGTH('a) - Suc 0) (uint w) = uint w"
    using assms by (rule signed_take_bit_int_eq_self)
  then show ?thesis by (simp only: sint_uint)
qed


lemma len64: "LENGTH(64) - Suc 0 = 63"
  by simp

lemma sint_small: "unat (w :: 64 word) < 2 ^ 63 \<Longrightarrow> sint w = int (unat w)"
proof -
  assume a: "unat w < 2 ^ 63"
  have "int (unat w) < int (2 ^ 63)" using a by (simp only: of_nat_less_iff)
  then have "uint w < 2 ^ 63" by (simp only: uint_nat of_nat_power of_nat_numeral)
  then have "uint w < 2 ^ (LENGTH(64) - Suc 0)" by (simp only: len64)
  then have "sint w = uint w" by (rule sint_eq_uint_small)
  then show ?thesis by (simp only: uint_nat)
qed


lemma unat_of_nat64: "n < 2 ^ 64 \<Longrightarrow> unat (of_nat n :: 64 word) = n"
  by (simp add: unat_of_nat)

lemma unat_plus8: "unat (w :: 64 word) + 8 < 2 ^ 64 \<Longrightarrow> unat (w + 8) = unat w + 8"
  by (simp add: unat_word_ariths)

lemma split8: "n < 64 \<Longrightarrow>
    n < 8 \<or> 8 \<le> n \<and> n < 16 \<or> 16 \<le> n \<and> n < 24 \<or> 24 \<le> n \<and> n < 32 \<or>
    32 \<le> n \<and> n < 40 \<or> 40 \<le> n \<and> n < 48 \<or> 48 \<le> n \<and> n < 56 \<or> 56 \<le> (n::nat) \<and> n < 64"
  by presburger

lemma byte_bit:
  "bit (push_bit k (ucast (ucast (drop_bit k v) :: byte)) :: uint64) n \<longleftrightarrow>
     k \<le> n \<and> n < k + 8 \<and> n < 64 \<and> bit v n"
  by (auto simp add: bit_simps less_diff_conv2)

lemma byte_bit0: "bit (ucast (ucast v :: byte) :: uint64) n \<longleftrightarrow> n < 8 \<and> bit v n"
  by (auto simp add: bit_simps)

lemma Uint64_PutUint64: "Uint64 (PutUint64 v) = v"
proof (rule bit_word_eqI)
  fix n :: nat
  assume "n < LENGTH(64)"
  then have "n < 64" by simp
  from split8 [OF this] show "bit (Uint64 (PutUint64 v)) n = bit v n"
    by (elim disjE) (simp_all add: Uint64_def PutUint64_def bit_or_iff byte_bit byte_bit0)
qed

section \<open>Writes that succeed, and reads of what was written\<close>

lemma File_ReadAt_exact:
  assumes "\<not> fclosed f" "unat off < 2 ^ 63" "inodes fs (fino f) = xs @ ys @ zs"
    "length xs = unat off" "length b = length ys"
  shows "File_ReadAt fs f b off = (ys, length ys, None)"
proof -
  have s: "sint off = int (unat off)" using assms(2) by (rule sint_small)
  show ?thesis using assms(1,3,4,5) s by (auto simp: File_ReadAt_def Let_def)
qed

lemma positioned_pending: "positioned fs f \<Longrightarrow> pending fs f w = inodes fs (fino f) @ w"
  by (simp add: pending_def positioned_def)

lemma Flush_ok:
  assumes "\<not> fclosed f" "werr b = None" "write_pos fs f + length (wbuf b) \<le> quota fs"
  shows "fst (Writer_Flush fs f b) = None"
  using assms
  by (auto simp: Writer_Flush_def File_Write_def Buffered_def Let_def split: prod.splits)

lemma Write_iter_ok:
  assumes "\<not> fclosed f" "werr b = None" "write_pos fs f + length (wbuf b) + length p \<le> quota fs"
    "Write_iter fs f b p = (n, fs', f', b')"
  shows "werr b' = None"
proof (cases "Buffered b = 0")
  case True
  with assms show ?thesis
    by (auto simp: Write_iter_def File_Write_def Let_def split: prod.splits if_splits)
next
  case False
  then obtain e where fl: "Writer_Flush fs f (b\<lparr>wbuf := wbuf b @ take n p\<rparr>) = (e, fs', f', b')"
    using assms(4) by (auto simp: Write_iter_def Let_def split: prod.splits)
  have "fst (Writer_Flush fs f (b\<lparr>wbuf := wbuf b @ take n p\<rparr>)) = None"
    using assms(1-3) by (intro Flush_ok) auto
  with fl have "e = None" by simp
  with Flush_werr(1) [OF fl] show ?thesis by simp
qed

lemma Write_loop_ok:
  assumes "Write_loop fs f b p nn = (nn', p', fs', f', b')"
    "\<not> fclosed f" "werr b = None" "write_pos fs f + length (wbuf b) + length p \<le> quota fs"
  shows "werr b' = None"
  using assms
proof (induction fs f b p nn rule: Write_loop.induct)
  case (1 fs f b p nn)
  show ?case
  proof (cases "Available b < length p \<and> werr b = None")
    case False
    with "1.prems" show ?thesis by (simp add: Write_loop_stop)
  next
    case True
    obtain n fs1 f1 b1 where it: "Write_iter fs f b p = (n, fs1, f1, b1)"
      by (cases "Write_iter fs f b p") auto
    from True it "1.prems" have loop: "Write_loop fs1 f1 b1 (drop n p) (nn + n) = (nn', p', fs', f', b')"
      by (simp add: Write_loop_step)
    note ap = Write_iter_appended [OF it]
    have 1: "werr b1 = None" using Write_iter_ok [OF "1.prems"(2-4) it] .
    have 2: "\<not> fclosed f1" using ap(1) "1.prems"(2) by (simp add: appended_def)
    have 3: "write_pos fs1 f1 + length (wbuf b1) + length (drop n p) \<le> quota fs1"
      using ap(1,2) "1.prems"(4) by (simp add: appended_def)
    show ?thesis using "1.IH" [OF True it [symmetric] refl refl loop 2 1 3] .
  qed
qed

lemma Writer_Write_ok:
  assumes "\<not> fclosed f" "werr b = None" "write_pos fs f + length (wbuf b) + length p \<le> quota fs"
  shows "fst (fst (Writer_Write fs f b p)) = length p \<and> snd (fst (Writer_Write fs f b p)) = None"
proof -
  obtain nn e fs' f' b' where w: "Writer_Write fs f b p = ((nn, e), fs', f', b')"
    by (cases "Writer_Write fs f b p") auto
  obtain n0 p0 fs0 f0 b0 where loop: "Write_loop fs f b p 0 = (n0, p0, fs0, f0, b0)"
    by (cases "Write_loop fs f b p 0") auto
  have "werr b0 = None" using Write_loop_ok [OF loop assms] .
  with w loop have "e = None" by (simp add: Writer_Write_def Let_def)
  with Writer_Write_props [OF w] w show ?thesis by simp
qed

lemma length_PutUint64 [simp]: "length (PutUint64 v) = 8"
  by (simp add: PutUint64_def)

lemma Append_success:
  assumes "Append fs s p = ((n, pos, None), fs', s')"
  shows "n = of_nat (length p + 8) \<and> pos = size_s s \<and> size_s s' = size_s s + of_nat (length p + 8) \<and>
    appended fs (file_s s) (buf s) (PutUint64 (of_nat (length p)) @ p) fs' (file_s s') (buf s') \<and>
    werr (buf s') = None \<and>
    (length (wbuf (buf s)) \<le> defaultBufSize \<longrightarrow> length (wbuf (buf s')) \<le> defaultBufSize)"
proof -
  obtain n1 fs1 f1 b1 where w1:
    "Writer_Write fs (file_s s) (buf s) (PutUint64 (of_nat (length p))) = ((n1, None), fs1, f1, b1)"
    using assms by (auto simp: Append_def binary_Write_def Let_def split: prod.splits option.splits)
  obtain w fs2 f2 b2 where w2: "Writer_Write fs1 f1 b1 p = ((w, None), fs2, f2, b2)"
    and res: "n = of_nat (w + lenWidth)" "pos = size_s s" "fs' = fs2"
      "s' = s\<lparr>file_s := f2, buf := b2, size_s := size_s s + of_nat (w + lenWidth)\<rparr>"
    using assms w1
    by (auto simp: Append_def binary_Write_def Let_def split: prod.splits option.splits)
  note p1 = Writer_Write_props [OF w1]
  note p2 = Writer_Write_props [OF w2]
  have n1: "n1 = 8" and w: "w = length p" using p1 p2 by simp_all
  have a1: "appended fs (file_s s) (buf s) (PutUint64 (of_nat (length p))) fs1 f1 b1"
    using p1 n1 by simp
  have a2: "appended fs1 f1 b1 p fs2 f2 b2"
    using p2 w by simp
  have "appended fs (file_s s) (buf s) (PutUint64 (of_nat (length p)) @ p) fs2 f2 b2"
    using appended_trans [OF a1 a2] .
  then show ?thesis using res p1 p2 by (simp add: lenWidth_def)
qed

lemma Append_appended:
  assumes "Append fs s p = (r, fs', s')"
  shows "\<exists>x. appended fs (file_s s) (buf s) x fs' (file_s s') (buf s')"
    "length (wbuf (buf s)) \<le> defaultBufSize \<Longrightarrow> length (wbuf (buf s')) \<le> defaultBufSize"
proof -
  obtain n1 e1 fs1 f1 b1 where w1:
    "Writer_Write fs (file_s s) (buf s) (PutUint64 (of_nat (length p))) = ((n1, e1), fs1, f1, b1)"
    by (cases "Writer_Write fs (file_s s) (buf s) (PutUint64 (of_nat (length p)))") auto
  obtain w e2 fs2 f2 b2 where w2: "Writer_Write fs1 f1 b1 p = ((w, e2), fs2, f2, b2)"
    by (cases "Writer_Write fs1 f1 b1 p") auto
  note p1 = Writer_Write_props [OF w1]
  note p2 = Writer_Write_props [OF w2]
  have 12: "appended fs (file_s s) (buf s) (take n1 (PutUint64 (of_nat (length p))) @ take w p) fs2 f2 b2"
    using appended_trans p1 p2 by blast
  have "(fs' = fs1 \<and> file_s s' = f1 \<and> buf s' = b1) \<or> (fs' = fs2 \<and> file_s s' = f2 \<and> buf s' = b2)"
    using assms w1 w2
    by (auto simp: Append_def binary_Write_def Let_def split: prod.splits option.splits)
  then show "\<exists>x. appended fs (file_s s) (buf s) x fs' (file_s s') (buf s')"
    using p1 12 by auto
  show "length (wbuf (buf s')) \<le> defaultBufSize" if "length (wbuf (buf s)) \<le> defaultBufSize"
    using that assms w1 w2 p1 p2
    by (auto simp: Append_def binary_Write_def Let_def split: prod.splits option.splits)
qed

lemma Flush_positioned_ok:
  assumes "\<not> fclosed f" "werr b = None" "positioned fs f"
    "length (inodes fs (fino f)) + length (wbuf b) \<le> quota fs"
  shows "\<exists>fs1 f1 b1. Writer_Flush fs f b = (None, fs1, f1, b1) \<and> wbuf b1 = [] \<and> werr b1 = None \<and>
    inodes fs1 (fino f1) = inodes fs (fino f) @ wbuf b \<and> fino f1 = fino f \<and>
    \<not> fclosed f1 \<and> positioned fs1 f1 \<and> quota fs1 = quota fs \<and> paths fs1 = paths fs \<and>
    (\<forall>i. i \<noteq> fino f \<longrightarrow> inodes fs1 i = inodes fs i)"
proof -
  obtain e fs1 f1 b1 where fl: "Writer_Flush fs f b = (e, fs1, f1, b1)"
    by (cases "Writer_Flush fs f b") auto
  have "fst (Writer_Flush fs f b) = None"
    using assms by (intro Flush_ok) (simp_all add: positioned_def)
  with fl have e: "e = None" by simp
  note ap = Flush_appended [OF fl]
  note we = Flush_werr [OF fl]
  have p1: "positioned fs1 f1" using ap assms(3) by (simp add: appended_def)
  have "pending fs1 f1 (wbuf b1) = pending fs f (wbuf b)" using ap by (simp add: appended_def)
  then have "inodes fs1 (fino f1) = inodes fs (fino f) @ wbuf b"
    using we e p1 assms(3) by (simp add: positioned_pending)
  then show ?thesis using fl e we ap p1 assms(1) by (simp add: appended_def)
qed

lemma Read_record:
  assumes "\<not> fclosed (file_s s)" "werr (buf s) = None" "positioned fs (file_s s)"
    "stream fs s = xs @ PutUint64 (of_nat (length p)) @ p @ zs"
    "length (stream fs s) \<le> quota fs" "quota fs < 2 ^ 63"
    "length xs = unat pos" "length p \<le> maxAlloc"
  shows "fst (Read fs s pos) = Inr p"
proof -
  from Flush_positioned_ok [OF assms(1-3)] assms(5)
  obtain fs1 f1 b1 where fl: "Writer_Flush fs (file_s s) (buf s) = (None, fs1, f1, b1)"
    and c1: "inodes fs1 (fino f1) = stream fs s" and op: "\<not> fclosed f1"
    by (auto simp: stream_def)
  have len: "length xs + 8 + length p \<le> length (stream fs s)"
    by (simp add: assms(4))
  have lt: "length (stream fs s) < 2 ^ 63" using assms(5,6) by (rule le_less_trans)
  have pos63: "unat pos < 2 ^ 63" using len lt assms(7) by linarith
  have pos8: "unat pos + 8 < 2 ^ 63" using len lt assms(7) by linarith
  have "unat pos + 8 < 2 ^ 64" using pos8 by (rule less_trans) simp
  then have u8: "unat (pos + 8) = unat pos + 8" by (rule unat_plus8)
  have "length p < 2 ^ 63" using len lt by linarith
  then have "length p < 2 ^ 64" by (rule less_trans) simp
  then have up: "unat (of_nat (length p) :: 64 word) = length p" by (rule unat_of_nat64)
  have r1: "File_ReadAt fs1 f1 (replicate lenWidth 0) pos
      = (PutUint64 (of_nat (length p)), 8, None)"
    using File_ReadAt_exact [OF op pos63, of fs1 xs "PutUint64 (of_nat (length p))" "p @ zs"
        "replicate lenWidth 0"] c1 assms(4,7)
    by (simp add: lenWidth_def)
  have r2: "File_ReadAt fs1 f1 (replicate (length p) 0) (pos + of_nat lenWidth) = (p, length p, None)"
    using File_ReadAt_exact [OF op, of "pos + 8" fs1 "xs @ PutUint64 (of_nat (length p))" p zs
        "replicate (length p) 0"] c1 assms(4,7) u8 pos8
    by (simp add: lenWidth_def)
  show ?thesis
    using fl r1 r2 up assms(8) by (simp add: Read_def Let_def Uint64_PutUint64)
qed

lemma unat_add_of_nat64: "unat (w :: 64 word) + n < 2 ^ 64 \<Longrightarrow> unat (w + of_nat n) = unat w + n"
  by (simp add: unat_word_ariths unat_of_nat)

lemma Append_store_ok:
  assumes "store_ok fs s" "unat (size_s s) + 8 + length p \<le> quota fs"
    "Append fs s p = ((n, pos, None), fs', s')"
  shows "store_ok fs' s'" "stream fs' s' = stream fs s @ PutUint64 (of_nat (length p)) @ p"
    "unat (size_s s') = unat (size_s s) + 8 + length p"
proof -
  note ok = assms(1) [unfolded store_ok_def]
  note su = Append_success [OF assms(3)]
  from su have ap: "appended fs (file_s s) (buf s) (PutUint64 (of_nat (length p)) @ p) fs' (file_s s') (buf s')"
    by simp
  have pos': "positioned fs' (file_s s')" using ap ok by (simp add: appended_def)
  have "pending fs' (file_s s') (wbuf (buf s'))
      = pending fs (file_s s) (wbuf (buf s) @ PutUint64 (of_nat (length p)) @ p)"
    using ap by (simp add: appended_def)
  then show st: "stream fs' s' = stream fs s @ PutUint64 (of_nat (length p)) @ p"
    using pos' ok by (simp add: positioned_pending stream_def)
  have q: "quota fs' = quota fs" using ap by (simp add: appended_def)
  have "unat (size_s s) + (length p + 8) < 2 ^ 63" using assms(2) ok by linarith
  then have "unat (size_s s) + (length p + 8) < 2 ^ 64" by (rule less_trans) simp
  then have "unat (size_s s + of_nat (length p + 8)) = unat (size_s s) + (length p + 8)"
    by (rule unat_add_of_nat64)
  then show sz: "unat (size_s s') = unat (size_s s) + 8 + length p" using su by simp
  show "store_ok fs' s'"
    unfolding store_ok_def using ok su ap pos' st sz q assms(2)
    by (simp add: appended_def)
qed

lemma Append_ok:
  assumes "store_ok fs s" "unat (size_s s) + 8 + length p \<le> quota fs"
  shows "\<exists>fs' s'. Append fs s p = ((8 + of_nat (length p), size_s s, None), fs', s')"
proof -
  note ok = assms(1) [unfolded store_ok_def]
  have wp: "write_pos fs (file_s s) + length (wbuf (buf s)) = unat (size_s s)"
    using ok by (simp add: positioned_def stream_def)
  obtain n1 e1 fs1 f1 b1 where w1:
    "Writer_Write fs (file_s s) (buf s) (PutUint64 (of_nat (length p))) = ((n1, e1), fs1, f1, b1)"
    by (cases "Writer_Write fs (file_s s) (buf s) (PutUint64 (of_nat (length p)))") auto
  have "snd (fst (Writer_Write fs (file_s s) (buf s) (PutUint64 (of_nat (length p))))) = None"
    using ok wp assms(2) by (intro Writer_Write_ok [THEN conjunct2]) simp_all
  with w1 have e1: "e1 = None" by simp
  note p1 = Writer_Write_props [OF w1]
  from p1 e1 have n1: "n1 = 8" by simp
  obtain w e2 fs2 f2 b2 where w2: "Writer_Write fs1 f1 b1 p = ((w, e2), fs2, f2, b2)"
    by (cases "Writer_Write fs1 f1 b1 p") auto
  have "snd (fst (Writer_Write fs1 f1 b1 p)) = None \<and> fst (fst (Writer_Write fs1 f1 b1 p)) = length p"
    using ok wp assms(2) p1 e1 n1 Writer_Write_ok [of f1 b1 fs1 p] by (simp add: appended_def)
  with w2 have e2: "e2 = None" "w = length p" by simp_all
  show ?thesis
    using w1 w2 e1 e2 by (simp add: Append_def binary_Write_def Let_def lenWidth_def add.commute)
qed

lemma Append_failure:
  assumes "Append fs s p = ((n, pos, Some e), fs', s')"
  shows "n = 0" "pos = 0" "size_s s' = size_s s"
  using assms by (auto simp: Append_def Let_def split: prod.splits option.splits)

lemma Append_result:
  assumes "Append fs s p = (r, fs', s')"
  shows "n_of r = (if err_of r = None then 8 + of_nat (length p) else 0) \<and>
    (err_of r = None \<longrightarrow> pos_of r = size_s s) \<and>
    size_s s' = size_s s + n_of r"
proof -
  obtain n pos e where r: "r = (n, pos, e)" by (cases r) auto
  show ?thesis
  proof (cases e)
    case None
    with assms r have a: "Append fs s p = ((n, pos, None), fs', s')" by simp
    from Append_success [OF a] r None show ?thesis
      by (simp add: n_of_def pos_of_def err_of_def add.commute)
  next
    case (Some e')
    with assms r have a: "Append fs s p = ((n, pos, Some e'), fs', s')" by simp
    from Append_failure [OF a] r Some show ?thesis
      by (simp add: n_of_def pos_of_def err_of_def)
  qed
qed

lemma Appends_length:
  "Appends fs s ps = (rs, fs', s') \<Longrightarrow> length rs = length ps"
  by (induction ps arbitrary: fs s rs) (auto split: prod.splits)

lemma Appends_size:
  "Appends fs s ps = (rs, fs', s') \<Longrightarrow> size_s s' = size_s s + sum_list (map n_of rs)"
proof (induction ps arbitrary: fs s rs)
  case Nil
  then show ?case by simp
next
  case (Cons p ps)
  obtain r fs1 s1 where a: "Append fs s p = (r, fs1, s1)" by (cases "Append fs s p") auto
  obtain rs1 where b: "Appends fs1 s1 ps = (rs1, fs', s')" and rs: "rs = r # rs1"
    using Cons.prems a by (auto split: prod.splits)
  from Cons.IH [OF b] Append_result [OF a] rs show ?case by (simp add: add.assoc)
qed

lemma Appends_split:
  "Appends fs s ps = (rs, fs', s') \<Longrightarrow> i \<le> length ps \<Longrightarrow>
   \<exists>fsi si. Appends fs s (take i ps) = (take i rs, fsi, si) \<and>
            Appends fsi si (drop i ps) = (drop i rs, fs', s')"
proof (induction ps arbitrary: fs s rs i)
  case Nil
  then show ?case by simp
next
  case (Cons p ps)
  obtain r fs1 s1 where a: "Append fs s p = (r, fs1, s1)" by (cases "Append fs s p") auto
  obtain rs1 where b: "Appends fs1 s1 ps = (rs1, fs', s')" and rs: "rs = r # rs1"
    using Cons.prems a by (auto split: prod.splits)
  show ?case
  proof (cases i)
    case 0
    with Cons.prems show ?thesis by simp
  next
    case (Suc j)
    with Cons.prems have "j \<le> length ps" by simp
    from Cons.IH [OF b this] obtain fsi si where
      "Appends fs1 s1 (take j ps) = (take j rs1, fsi, si)"
      "Appends fsi si (drop j ps) = (drop j rs1, fs', s')" by blast
    with a rs Suc show ?thesis by simp
  qed
qed

lemma Appends_nth:
  assumes "Appends fs s ps = (rs, fs', s')" "i < length ps"
  shows "n_of (rs ! i) = (if err_of (rs ! i) = None then 8 + of_nat (length (ps ! i)) else 0)"
    "err_of (rs ! i) = None \<Longrightarrow> pos_of (rs ! i) = size_s s + sum_list (map n_of (take i rs))"
proof -
  from Appends_split [OF assms(1), of i] assms(2) obtain fsi si where
    t: "Appends fs s (take i ps) = (take i rs, fsi, si)" and
    d: "Appends fsi si (drop i ps) = (drop i rs, fs', s')" by auto
  have len: "length rs = length ps" using Appends_length [OF assms(1)] .
  have dp: "drop i ps = ps ! i # drop (Suc i) ps" using assms(2) by (simp add: Cons_nth_drop_Suc)
  have dr: "drop i rs = rs ! i # drop (Suc i) rs" using assms(2) len by (simp add: Cons_nth_drop_Suc)
  obtain fs1 s1 where a: "Append fsi si (ps ! i) = (rs ! i, fs1, s1)"
    using d unfolding dp dr by (auto split: prod.splits)
  have sz: "size_s si = size_s s + sum_list (map n_of (take i rs))"
    using Appends_size [OF t] .
  show "n_of (rs ! i) = (if err_of (rs ! i) = None then 8 + of_nat (length (ps ! i)) else 0)"
    using Append_result [OF a] by simp
  show "pos_of (rs ! i) = size_s s + sum_list (map n_of (take i rs))" if "err_of (rs ! i) = None"
    using Append_result [OF a] that sz by simp
qed

lemma Flush_idem:
  assumes "Writer_Flush fs f b = (e, fs1, f1, b1)"
  shows "Writer_Flush fs1 f1 b1 = (e, fs1, f1, b1)"
  using assms
  by (auto simp: Writer_Flush_def Buffered_def split: option.splits if_splits prod.splits)

lemma Read_state:
  assumes "Writer_Flush fs (file_s s) (buf s) = (e, fs1, f1, b1)"
  shows "snd (Read fs s pos) = (fs1, s\<lparr>file_s := f1, buf := b1\<rparr>)"
  using assms by (auto simp: Read_def Let_def split: option.splits prod.splits)

lemma ReadAt_state:
  assumes "Writer_Flush fs (file_s s) (buf s) = (e, fs1, f1, b1)"
  shows "snd (ReadAt fs s d off) = (fs1, s\<lparr>file_s := f1, buf := b1\<rparr>)"
  using assms by (auto simp: ReadAt_def split: option.splits)

lemma Read_after_Flush:
  assumes "Writer_Flush fs (file_s s) (buf s) = (e, fs1, f1, b1)"
  shows "Read fs1 (s\<lparr>file_s := f1, buf := b1\<rparr>) pos = Read fs s pos"
  using assms Flush_idem [OF assms] by (simp add: Read_def split: option.splits)

lemma ReadAt_after_Flush:
  assumes "Writer_Flush fs (file_s s) (buf s) = (e, fs1, f1, b1)"
  shows "ReadAt fs1 (s\<lparr>file_s := f1, buf := b1\<rparr>) d off = ReadAt fs s d off"
  using assms Flush_idem [OF assms] by (simp add: ReadAt_def split: option.splits)

lemma Flush_stream:
  assumes "Writer_Flush fs f b = (e, fs1, f1, b1)" "positioned fs f"
  shows "inodes fs1 (fino f1) @ wbuf b1 = inodes fs (fino f) @ wbuf b" "positioned fs1 f1"
proof -
  note ap = Flush_appended [OF assms(1)]
  show p1: "positioned fs1 f1" using ap assms(2) by (simp add: appended_def)
  have "pending fs1 f1 (wbuf b1) = pending fs f (wbuf b)" using ap by (simp add: appended_def)
  then show "inodes fs1 (fino f1) @ wbuf b1 = inodes fs (fino f) @ wbuf b"
    using p1 assms(2) by (simp add: positioned_pending)
qed

lemma Flush_closed:
  assumes "fclosed f"
  shows "Writer_Flush fs f b =
    (case werr b of
       Some e \<Rightarrow> (Some e, fs, f, b)
     | None \<Rightarrow> if wbuf b = [] then (None, fs, f, b)
               else (Some ErrClosed, fs, f, b\<lparr>werr := Some ErrClosed\<rparr>))"
  using assms
  by (auto simp: Writer_Flush_def File_Write_def Buffered_def split: option.splits)

lemma Write_iter_closed:
  assumes "fclosed f" "werr b = None" "Available b < length p"
  shows "\<exists>n b'. Write_iter fs f b p = (n, fs, f, b') \<and> werr b' = Some ErrClosed"
  using assms
  by (auto simp: Write_iter_def Flush_closed File_Write_def Buffered_def Let_def)

lemma Writer_Write_closed:
  assumes "fclosed f"
  shows "(werr b = None \<and> length x \<le> Available b \<longrightarrow>
            Writer_Write fs f b x = ((length x, None), fs, f, b\<lparr>wbuf := wbuf b @ x\<rparr>)) \<and>
         (\<not> (werr b = None \<and> length x \<le> Available b) \<longrightarrow>
            (\<exists>n e b'. Writer_Write fs f b x = ((n, Some e), fs, f, b') \<and>
               (e = ErrClosed \<or> werr b = Some e)))"
proof (intro conjI impI)
  assume "werr b = None \<and> length x \<le> Available b"
  then show "Writer_Write fs f b x = ((length x, None), fs, f, b\<lparr>wbuf := wbuf b @ x\<rparr>)"
    by (simp add: Writer_Write_def Write_loop_stop Let_def)
next
  assume n: "\<not> (werr b = None \<and> length x \<le> Available b)"
  show "\<exists>n e b'. Writer_Write fs f b x = ((n, Some e), fs, f, b') \<and> (e = ErrClosed \<or> werr b = Some e)"
  proof (cases "werr b")
    case (Some e)
    then show ?thesis by (simp add: Writer_Write_def Write_loop_stop)
  next
    case None
    with n have av: "Available b < length x" by simp
    from Write_iter_closed [OF assms None av] obtain n b' where
      it: "Write_iter fs f b x = (n, fs, f, b')" and e: "werr b' = Some ErrClosed" by blast
    have "Write_loop fs f b x 0 = (n, drop n x, fs, f, b')"
      using None av it e by (simp add: Write_loop_step Write_loop_stop)
    then show ?thesis using e by (simp add: Writer_Write_def)
  qed
qed

lemma Append_closed:
  assumes "fclosed (file_s s)"
  shows "(werr (buf s) = None \<and> length (wbuf (buf s)) + 8 + length p \<le> defaultBufSize \<longrightarrow>
            Append fs s p = ((8 + of_nat (length p), size_s s, None), fs,
              s\<lparr>buf := (buf s)\<lparr>wbuf := wbuf (buf s) @ PutUint64 (of_nat (length p)) @ p\<rparr>,
                size_s := size_s s + (8 + of_nat (length p))\<rparr>)) \<and>
         (\<not> (werr (buf s) = None \<and> length (wbuf (buf s)) + 8 + length p \<le> defaultBufSize) \<longrightarrow>
            (\<exists>e. fst (Append fs s p) = (0, 0, Some e) \<and> (e = ErrClosed \<or> werr (buf s) = Some e))) \<and>
         fclosed (file_s (snd (snd (Append fs s p))))"
proof -
  let ?x = "PutUint64 (of_nat (length p))"
  let ?b1 = "(buf s)\<lparr>wbuf := wbuf (buf s) @ ?x\<rparr>"
  note w1 = Writer_Write_closed [OF assms, of "buf s" ?x fs]
  note w2 = Writer_Write_closed [OF assms, of ?b1 p fs]
  show ?thesis
  proof (cases "werr (buf s) = None \<and> length ?x \<le> Available (buf s)")
    case False
    with w1 obtain n e b' where
      "Writer_Write fs (file_s s) (buf s) ?x = ((n, Some e), fs, file_s s, b')"
      "e = ErrClosed \<or> werr (buf s) = Some e" by blast
    with False assms show ?thesis
      by (auto simp: Append_def binary_Write_def Let_def Available_def)
  next
    case True
    with w1 have 1: "Writer_Write fs (file_s s) (buf s) ?x = ((8, None), fs, file_s s, ?b1)"
      by simp
    show ?thesis
    proof (cases "length p \<le> Available ?b1")
      case False
      with w2 True obtain n e b' where
        "Writer_Write fs (file_s s) ?b1 p = ((n, Some e), fs, file_s s, b')"
        "e = ErrClosed \<or> werr ?b1 = Some e" by auto
      with False True 1 assms show ?thesis
        by (auto simp: Append_def binary_Write_def Let_def Available_def)
    next
      case False2: True
      with w2 True have 2: "Writer_Write fs (file_s s) ?b1 p
          = ((length p, None), fs, file_s s, ?b1\<lparr>wbuf := wbuf ?b1 @ p\<rparr>)"
        by simp
      from False2 True 1 2 assms show ?thesis
        by (auto simp: Append_def binary_Write_def Let_def Available_def lenWidth_def add.commute)
    qed
  qed
qed





lemma Close_state:
  assumes "Writer_Flush fs (file_s s) (buf s) = (e, fs1, f1, b1)"
  shows "\<exists>c. snd (Close fs s) = (fs1, s\<lparr>file_s := f1\<lparr>fclosed := c\<rparr>, buf := b1\<rparr>)"
proof (cases e)
  case (Some err)
  with assms have "snd (Close fs s) = (fs1, s\<lparr>file_s := f1\<lparr>fclosed := fclosed f1\<rparr>, buf := b1\<rparr>)"
    by (simp add: Close_def)
  then show ?thesis by blast
next
  case None
  with assms have "snd (Close fs s) = (fs1, s\<lparr>file_s := f1\<lparr>fclosed := True\<rparr>, buf := b1\<rparr>)"
    by (cases "fclosed f1") (simp_all add: Close_def File_Close_def)
  then show ?thesis by blast
qed

lemma exec_flush:
  assumes "exec x fs s = (e, fs', s')" "\<And>p. x \<noteq> OpAppend p"
  shows "\<exists>e1 f1 c. Writer_Flush fs (file_s s) (buf s) = (e1, fs', f1, buf s') \<and>
     file_s s' = f1\<lparr>fclosed := c\<rparr> \<and> size_s s' = size_s s"
proof -
  obtain e1 fs1 f1 b1 where fl: "Writer_Flush fs (file_s s) (buf s) = (e1, fs1, f1, b1)"
    by (cases "Writer_Flush fs (file_s s) (buf s)") auto
  have "\<exists>c. (fs', s') = (fs1, s\<lparr>file_s := f1\<lparr>fclosed := c\<rparr>, buf := b1\<rparr>)"
  proof (cases x)
    case (OpAppend p)
    with assms(2) [of p] show ?thesis by simp
  next
    case (OpRead pos)
    with assms(1) have "(fs', s') = snd (Read fs s pos)"
      by (auto split: prod.splits sum.splits)
    with Read_state [OF fl, of pos] show ?thesis by (auto intro: exI [of _ "fclosed f1"])
  next
    case (OpReadAt p off)
    with assms(1) have "(fs', s') = snd (ReadAt fs s p off)"
      by (auto split: prod.splits)
    with ReadAt_state [OF fl, of p off] show ?thesis by (auto intro: exI [of _ "fclosed f1"])
  next
    case OpClose
    with assms(1) have "(fs', s') = snd (Close fs s)" by simp
    with Close_state [OF fl] show ?thesis by auto
  qed
  with fl show ?thesis by auto
qed

lemma appendedD:
  assumes "appended fs f b x fs' f' b'"
  shows "fino f' = fino f" "fclosed f' = fclosed f" "fappend f' = fappend f" "fname f' = fname f"
    "paths fs' = paths fs" "quota fs' = quota fs"
    "i \<noteq> fino f \<Longrightarrow> inodes fs' i = inodes fs i"
    "positioned fs f \<Longrightarrow> positioned fs' f'"
    "length (inodes fs (fino f)) \<le> quota fs \<Longrightarrow> length (inodes fs' (fino f)) \<le> quota fs"
    "positioned fs f \<Longrightarrow> inodes fs' (fino f) @ wbuf b' = inodes fs (fino f) @ wbuf b @ x"
  using assms by (auto simp: appended_def positioned_pending)

lemma positioned_closed [simp]: "positioned fs (f\<lparr>fclosed := c\<rparr>) = positioned fs f"
  by (simp add: positioned_def write_pos_def)

lemma exec_step_other:
  assumes "exec x fs s = (e, fs', s')" "\<And>p. x \<noteq> OpAppend p" "accounted fs s"
  shows "accounted fs' s' \<and> size_s s' = size_s s \<and> length (stream fs' s') = length (stream fs s)"
proof -
  from exec_flush [OF assms(1,2)] obtain e1 f1 c where
    fl: "Writer_Flush fs (file_s s) (buf s) = (e1, fs', f1, buf s')"
    and f: "file_s s' = f1\<lparr>fclosed := c\<rparr>" and sz: "size_s s' = size_s s" by blast
  note ac = assms(3) [unfolded accounted_def]
  from ac have pz: "positioned fs (file_s s)" by simp
  note ap = appendedD [OF Flush_appended [OF fl]]
  have st: "stream fs' s' = stream fs s" using ap(10) [OF pz] f ap(1) by (simp add: stream_def)
  have "length (wbuf (buf s')) \<le> defaultBufSize" using Flush_werr(3) [OF fl] ac by simp
  moreover have "positioned fs' (file_s s')" using ap(8) [OF pz] f by simp
  moreover have "length (inodes fs' (fino (file_s s'))) \<le> quota fs'"
    using ap(9) ap(1) ap(6) ac f by simp
  ultimately show ?thesis
    unfolding accounted_def using ac ap(6) sz st by simp
qed

lemma exec_step_append:
  assumes "exec (OpAppend p) fs s = (e, fs', s')" "accounted fs s"
  shows "accounted fs' s' \<and> size_s s' = size_s s + appended_bytes (OpAppend p) e \<and>
    unat (size_s s) \<le> unat (size_s s') \<and> length (stream fs s) \<le> length (stream fs' s') \<and>
    (e = None \<longrightarrow> unat (size_s s') = unat (size_s s) + 8 + length p \<and>
       length (stream fs' s') = length (stream fs s) + 8 + length p)"
proof -
  obtain n pos where a: "Append fs s p = ((n, pos, e), fs', s')"
    using assms(1) by (auto split: prod.splits)
  note ac = assms(2) [unfolded accounted_def]
  from ac have pz: "positioned fs (file_s s)" by simp
  from Append_appended(1) [OF a] obtain x where
    ap: "appended fs (file_s s) (buf s) x fs' (file_s s') (buf s')" by blast
  note ap' = appendedD [OF ap]
  have pz': "positioned fs' (file_s s')" using ap'(8) [OF pz] .
  have st: "stream fs' s' = stream fs s @ x"
    using ap'(10) [OF pz] ap'(1) by (simp add: stream_def)
  have bl: "length (wbuf (buf s')) \<le> defaultBufSize" using Append_appended(2) [OF a] ac by simp
  have q: "quota fs' = quota fs" using ap'(6) .
  have fq: "length (inodes fs' (fino (file_s s'))) \<le> quota fs'" using ap'(9) ap'(1) q ac by simp
  have bound: "length (stream fs' s') < 2 ^ 64"
  proof -
    have "length (stream fs' s') \<le> quota fs + 4096"
      using bl fq q by (simp add: stream_def defaultBufSize_def)
    moreover have "quota fs + 4096 < 2 ^ 64" using ac by simp
    ultimately show ?thesis by (rule le_less_trans)
  qed
  show ?thesis
  proof (cases e)
    case (Some err)
    with a have "size_s s' = size_s s" using Append_failure(3) [of fs s p n pos err fs' s'] by simp
    with Some ac st pz' bl fq q show ?thesis
      by (simp add: accounted_def appended_bytes_def)
  next
    case None
    note su = Append_success [OF a [unfolded None]]
    from su have ap2: "appended fs (file_s s) (buf s) (PutUint64 (of_nat (length p)) @ p) fs' (file_s s') (buf s')"
      by simp
    have st2: "stream fs' s' = stream fs s @ PutUint64 (of_nat (length p)) @ p"
      using appendedD(10) [OF ap2 pz] ap'(1) by (simp add: stream_def)
    have len: "length (stream fs' s') = length (stream fs s) + 8 + length p" using st2 by simp
    have "unat (size_s s) + (length p + 8) \<le> length (stream fs' s')" using ac len by simp
    then have "unat (size_s s) + (length p + 8) < 2 ^ 64" using bound by (rule le_less_trans)
    then have "unat (size_s s + of_nat (length p + 8)) = unat (size_s s) + (length p + 8)"
      by (rule unat_add_of_nat64)
    with su have sz: "unat (size_s s') = unat (size_s s) + 8 + length p" by simp
    have "size_s s' = size_s s + (8 + of_nat (length p))" using su by (simp add: add.commute)
    with None ac sz len pz' bl fq q show ?thesis
      by (simp add: accounted_def appended_bytes_def)
  qed
qed

lemma exec_size:
  assumes "exec x fs s = (e, fs', s')"
  shows "size_s s' = size_s s + appended_bytes x e"
proof (cases "\<exists>p. x = OpAppend p")
  case True
  then obtain p where x: "x = OpAppend p" by blast
  obtain n pos where a: "Append fs s p = ((n, pos, e), fs', s')"
    using assms x by (auto split: prod.splits)
  from Append_result [OF a] x show ?thesis
    by (cases e) (simp_all add: appended_bytes_def n_of_def err_of_def)
next
  case False
  then have "\<And>p. x \<noteq> OpAppend p" by blast
  from exec_flush [OF assms this] False show ?thesis
    by (cases x) (auto simp: appended_bytes_def)
qed

lemma exec_step:
  assumes "exec x fs s = (e, fs', s')" "accounted fs s"
  shows "accounted fs' s' \<and> unat (size_s s) \<le> unat (size_s s') \<and>
    (\<not> failed_append x e \<longrightarrow> unat (size_s s) = length (stream fs s) \<longrightarrow>
       unat (size_s s') = length (stream fs' s'))"
proof (cases "\<exists>p. x = OpAppend p")
  case True
  then obtain p where x: "x = OpAppend p" by blast
  from exec_step_append [OF assms(1) [unfolded x] assms(2)] x show ?thesis
    by (auto simp: failed_append_def)
next
  case False
  then have "\<And>p. x \<noteq> OpAppend p" by blast
  from exec_step_other [OF assms(1) this assms(2)] show ?thesis by simp
qed

lemma run_length: "run ops fs s = (es, fs', s') \<Longrightarrow> length es = length ops"
  by (induction ops arbitrary: fs s es) (auto split: prod.splits)

lemma run_size:
  "run ops fs s = (es, fs', s') \<Longrightarrow> size_s s' = size_s s + sum_list (map2 appended_bytes ops es)"
proof (induction ops arbitrary: fs s es)
  case Nil
  then show ?case by simp
next
  case (Cons x xs)
  obtain e fs1 s1 where a: "exec x fs s = (e, fs1, s1)" by (cases "exec x fs s") auto
  obtain es1 where b: "run xs fs1 s1 = (es1, fs', s')" and es: "es = e # es1"
    using Cons.prems a by (auto split: prod.splits)
  from Cons.IH [OF b] exec_size [OF a] es show ?case by (simp add: add.assoc)
qed

lemma run_accounted:
  "run ops fs s = (es, fs', s') \<Longrightarrow> accounted fs s \<Longrightarrow>
   accounted fs' s' \<and> unat (size_s s) \<le> unat (size_s s') \<and>
   ((\<forall>(x, e)\<in>set (zip ops es). \<not> failed_append x e) \<longrightarrow>
      unat (size_s s) = length (stream fs s) \<longrightarrow> unat (size_s s') = length (stream fs' s'))"
proof (induction ops arbitrary: fs s es)
  case Nil
  then show ?case by simp
next
  case (Cons x xs)
  obtain e fs1 s1 where a: "exec x fs s = (e, fs1, s1)" by (cases "exec x fs s") auto
  obtain es1 where b: "run xs fs1 s1 = (es1, fs', s')" and es: "es = e # es1"
    using Cons.prems(1) a by (auto split: prod.splits)
  note st = exec_step [OF a Cons.prems(2)]
  from st have ac1: "accounted fs1 s1" by simp
  from Cons.IH [OF b ac1] st es show ?case by auto
qed

lemma store_ok_accounted: "store_ok fs s \<Longrightarrow> accounted fs s \<and> unat (size_s s) = length (stream fs s)"
  by (auto simp: store_ok_def accounted_def stream_def)

lemma run_append:
  "run (xs @ ys) fs s =
     (case run xs fs s of
        (es1, fs1, s1) \<Rightarrow>
          (case run ys fs1 s1 of
             (es2, fs2, s2) \<Rightarrow> (es1 @ es2, fs2, s2)))"
  by (induction xs arbitrary: fs s) (auto split: prod.splits)

lemma run_prefix_mono:
  assumes "accounted fs s" "i \<le> j"
  shows "unat (size_s (snd (snd (run (take i ops) fs s))))
       \<le> unat (size_s (snd (snd (run (take j ops) fs s))))"
proof -
  obtain es1 fs1 s1 where r1: "run (take i ops) fs s = (es1, fs1, s1)"
    by (cases "run (take i ops) fs s") auto
  obtain es2 fs2 s2 where r2: "run (take (j - i) (drop i ops)) fs1 s1 = (es2, fs2, s2)"
    by (cases "run (take (j - i) (drop i ops)) fs1 s1") auto
  have "take j ops = take i ops @ take (j - i) (drop i ops)"
    using assms(2) by (metis le_add_diff_inverse take_add)
  then have r: "run (take j ops) fs s = (es1 @ es2, fs2, s2)"
    using r1 r2 by (simp add: run_append)
  have ac1: "accounted fs1 s1" using run_accounted [OF r1 assms(1)] by simp
  from run_accounted [OF r2 ac1] r1 r show ?thesis by simp
qed

lemma Flush_file_length:
  assumes "Writer_Flush fs f b = (None, fs2, f2, b2)" "positioned fs f"
  shows "length (inodes fs2 (fino f2)) = length (inodes fs (fino f)) + length (wbuf b)"
  using Flush_stream(1) [OF assms] Flush_werr(2) [OF assms(1)]
  by (metis append_Nil2 length_append)

section \<open>Evaluating the model on concrete stores\<close>

lemmas eval_defs = Append_def binary_Write_def Writer_Write_def Write_iter_def Writer_Flush_def
  File_Write_def File_ReadAt_def File_Close_def Read_def ReadAt_def Close_def newStore_def
  os_Stat_def NewWriter_def Available_def Buffered_def defaultBufSize_def lenWidth_def
  maxAlloc_def write_pos_def pwrite_def PutUint64_def Uint64_def Let_def
  Write_loop_stop Write_loop_step empty_fs_def handle0_def store0_def

lemma newStore_empty: "newStore (empty_fs q) handle0 = Inr store0"
  by (simp add: eval_defs)

lemma Close_store0:
  "Close (empty_fs q) store0 = (None, empty_fs q, store0\<lparr>file_s := handle0\<lparr>fclosed := True\<rparr>\<rparr>)"
  by (simp add: eval_defs)

lemma store_ok_store0: "q < 2 ^ 63 \<Longrightarrow> store_ok (empty_fs q) store0"
  by (simp add: store_ok_def stream_def positioned_def eval_defs)

section \<open>Properties of the store\<close>

text \<open>
  C8.  Whenever \<open>Append\<close> returns an error, it returns it with the results \<open>0, 0\<close>
  and leaves \<open>size\<close> as it was; the error is the one returned by the write of the
  length prefix, or, that write having succeeded, by the write of the payload.
\<close>

theorem Append_error_keeps_size:
  assumes "Append fs s p = ((n, pos, Some e), fs', s')"
  shows "n = 0 \<and> pos = 0 \<and> size_s s' = size_s s \<and>
    (fst (binary_Write fs (file_s s) (buf s) (of_nat (length p))) = Some e \<or>
     (\<exists>fs1 f1 b1 w fs2 f2 b2.
        binary_Write fs (file_s s) (buf s) (of_nat (length p)) = (None, fs1, f1, b1) \<and>
        Writer_Write fs1 f1 b1 p = ((w, Some e), fs2, f2, b2)))"
  using assms
  by (auto simp: Append_def Let_def split: prod.splits option.splits)

text \<open>
  A closed store and a payload of 5000 bytes: the prefix is buffered, the payload
  fills the buffer, and the flush fails on the closed file.
\<close>

theorem Append_error_keeps_size_witness:
  "fst (Append (empty_fs 100) (store0\<lparr>file_s := handle0\<lparr>fclosed := True\<rparr>\<rparr>) (replicate 5000 0))
     = (0, 0, Some ErrClosed) \<and>
   size_s (snd (snd (Append (empty_fs 100) (store0\<lparr>file_s := handle0\<lparr>fclosed := True\<rparr>\<rparr>)
     (replicate 5000 0)))) = size_s (store0\<lparr>file_s := handle0\<lparr>fclosed := True\<rparr>\<rparr>)"
proof -
  have run: "Append (empty_fs 100) (store0\<lparr>file_s := handle0\<lparr>fclosed := True\<rparr>\<rparr>) (replicate 5000 0)
      = ((0, 0, Some ErrClosed), empty_fs 100,
         \<lparr>file_s = handle0\<lparr>fclosed := True\<rparr>,
          buf = \<lparr>wbuf = PutUint64 5000 @ replicate 4088 0, werr = Some ErrClosed\<rparr>,
          size_s = 0\<rparr>)"
    by (simp add: eval_defs)
  from Append_error_keeps_size [OF run] show ?thesis
    by (simp add: run)
qed

text \<open>
  C1, as the code has it.  Round trip.  On a store in working order (open, no
  write has failed, the handle writes at the end of its file, \<open>size\<close> counts file
  and buffer), with room on the storage for the record, and for a payload that a Go
  slice can hold: if \<open>Append p\<close> succeeds and returns \<open>pos\<close>, the \<open>Read pos\<close> that
  follows, with no flush or close in between, succeeds and returns exactly \<open>p\<close>.
\<close>

theorem Append_Read_roundtrip:
  assumes "store_ok fs s" and "length p \<le> maxAlloc"
    and "unat (size_s s) + 8 + length p \<le> quota fs"
    and "Append fs s p = ((n, pos, None), fs', s')"
  shows "fst (Read fs' s' pos) = Inr p"
proof -
  note ok' = Append_store_ok [OF assms(1,3,4)]
  note ok1 = ok'(1) [unfolded store_ok_def]
  have pos: "pos = size_s s" using Append_success [OF assms(4)] by simp
  have "length (stream fs s) = unat pos" using assms(1) pos by (simp add: store_ok_def)
  moreover have "stream fs' s' = stream fs s @ PutUint64 (of_nat (length p)) @ p @ []"
    using ok'(2) by simp
  ultimately show ?thesis
    using ok1 assms(2) by (intro Read_record) simp_all
qed

text \<open>
  C1 as stated fails, because \<open>Append\<close> succeeds from the buffer alone.  After a
  successful \<open>Close\<close>, \<open>Append "hello"\<close> returns \<open>(13, 0)\<close> and the \<open>Read 0\<close>
  that follows fails with the closed-file error of its flush.  On storage with room
  for 5 bytes, \<open>Append "hello"\<close> on a new store succeeds and \<open>Read 0\<close> fails with
  the write error.  On a store built over a file of 9 bytes through a handle whose
  cursor stands at 0, \<open>Append\<close> returns position 9, the flush overwrites the file
  from offset 0, and \<open>Read 9\<close> fails with \<open>EOF\<close>.
\<close>

theorem Append_succeeds_Read_fails:
  "fst (Close (empty_fs 100) store0) = None \<and>
   fst (Append (empty_fs 100) (snd (snd (Close (empty_fs 100) store0))) (map of_char ''hello''))
     = (13, 0, None) \<and>
   fst (Read (fst (snd (Append (empty_fs 100) (snd (snd (Close (empty_fs 100) store0)))
                 (map of_char ''hello''))))
             (snd (snd (Append (empty_fs 100) (snd (snd (Close (empty_fs 100) store0)))
                 (map of_char ''hello'')))) 0) = Inl ErrClosed \<and>
   newStore (empty_fs 5) handle0 = Inr store0 \<and>
   fst (Append (empty_fs 5) store0 (map of_char ''hello'')) = (13, 0, None) \<and>
   fst (Read (fst (snd (Append (empty_fs 5) store0 (map of_char ''hello''))))
             (snd (snd (Append (empty_fs 5) store0 (map of_char ''hello'')))) 0) = Inl ErrNoSpace \<and>
   newStore ((empty_fs 100)\<lparr>inodes := (\<lambda>_. [])(0 := [0, 0, 0, 0, 0, 0, 0, 1, 7])\<rparr>) handle0
     = Inr (store0\<lparr>size_s := 9\<rparr>) \<and>
   fst (Append ((empty_fs 100)\<lparr>inodes := (\<lambda>_. [])(0 := [0, 0, 0, 0, 0, 0, 0, 1, 7])\<rparr>)
          (store0\<lparr>size_s := 9\<rparr>) [5]) = (9, 9, None) \<and>
   fst (Read (fst (snd (Append ((empty_fs 100)\<lparr>inodes := (\<lambda>_. [])(0 := [0, 0, 0, 0, 0, 0, 0, 1, 7])\<rparr>)
          (store0\<lparr>size_s := 9\<rparr>) [5])))
        (snd (snd (Append ((empty_fs 100)\<lparr>inodes := (\<lambda>_. [])(0 := [0, 0, 0, 0, 0, 0, 0, 1, 7])\<rparr>)
          (store0\<lparr>size_s := 9\<rparr>) [5]))) 9) = Inl EOF"
  by (simp add: Close_store0) (simp add: eval_defs)

text \<open>The payload \<open>hello\<close> on a new store over an empty file.\<close>

theorem Append_Read_roundtrip_witness:
  "store_ok (empty_fs 100) store0 \<and>
   fst (Append (empty_fs 100) store0 (map of_char ''hello'')) = (13, 0, None) \<and>
   fst (Read (fst (snd (Append (empty_fs 100) store0 (map of_char ''hello''))))
          (snd (snd (Append (empty_fs 100) store0 (map of_char ''hello'')))) 0)
     = Inr (map of_char ''hello'')"
proof -
  have ok: "store_ok (empty_fs 100) store0" by (rule store_ok_store0) simp
  have len: "length (map of_char ''hello'' :: byte list) \<le> maxAlloc" by (simp add: maxAlloc_def)
  have room: "unat (size_s store0) + 8 + length (map of_char ''hello'' :: byte list) \<le> quota (empty_fs 100)"
    by (simp add: eval_defs)
  obtain fs' s' where a: "Append (empty_fs 100) store0 (map of_char ''hello'') = ((13, 0, None), fs', s')"
    by (simp add: eval_defs)
  from Append_Read_roundtrip [OF ok len room a] ok a show ?thesis by simp
qed

text \<open>
  C3.  A successful \<open>Append p\<close> returns \<open>8 + len p\<close> bytes written and the
  position \<open>size\<close> had before the call, and adds \<open>8 + len p\<close> to \<open>size\<close>.
  The eight bytes of the big-endian length and then \<open>p\<close> go through the buffered
  writer: what the file will hold once the buffer is flushed is what it would have
  held before, with these bytes behind the buffered ones; for a handle that writes
  at the end of its file, the stream (file, then buffer) grows by exactly them.
  On a new store over an empty file, \<open>Append "hello"\<close> returns \<open>(13, 0)\<close> and
  \<open>Append "hi"\<close> after it \<open>(10, 13)\<close>.
\<close>

theorem Append_postcondition:
  "(Append fs s p = ((n, pos, None), fs', s') \<longrightarrow>
      n = 8 + of_nat (length p) \<and> pos = size_s s \<and>
      size_s s' = size_s s + (8 + of_nat (length p)) \<and>
      length (PutUint64 (of_nat (length p))) = 8 \<and>
      Uint64 (PutUint64 (of_nat (length p))) = of_nat (length p) \<and>
      pending fs' (file_s s') (wbuf (buf s'))
        = pending fs (file_s s) (wbuf (buf s) @ PutUint64 (of_nat (length p)) @ p) \<and>
      (positioned fs (file_s s) \<longrightarrow>
         stream fs' s' = stream fs s @ PutUint64 (of_nat (length p)) @ p)) \<and>
   (\<exists>fs1 s1 fs2 s2.
      Append (empty_fs q) store0 (map of_char ''hello'') = ((13, 0, None), fs1, s1) \<and>
      Append fs1 s1 (map of_char ''hi'') = ((10, 13, None), fs2, s2))"
proof (intro conjI impI)
  assume a: "Append fs s p = ((n, pos, None), fs', s')"
  note su = Append_success [OF a]
  show "n = 8 + of_nat (length p)" "pos = size_s s" "size_s s' = size_s s + (8 + of_nat (length p))"
    using su by (simp_all add: add.commute)
  show "length (PutUint64 (of_nat (length p))) = 8" by simp
  show "Uint64 (PutUint64 (of_nat (length p))) = of_nat (length p)" by (rule Uint64_PutUint64)
  from su have ap: "appended fs (file_s s) (buf s) (PutUint64 (of_nat (length p)) @ p) fs' (file_s s') (buf s')"
    by simp
  then show pe: "pending fs' (file_s s') (wbuf (buf s'))
        = pending fs (file_s s) (wbuf (buf s) @ PutUint64 (of_nat (length p)) @ p)"
    by (simp add: appended_def)
  show "stream fs' s' = stream fs s @ PutUint64 (of_nat (length p)) @ p" if "positioned fs (file_s s)"
  proof -
    have "positioned fs' (file_s s')" using ap that by (simp add: appended_def)
    with pe that show ?thesis by (simp add: positioned_pending stream_def)
  qed
next
  show "\<exists>fs1 s1 fs2 s2.
      Append (empty_fs q) store0 (map of_char ''hello'') = ((13, 0, None), fs1, s1) \<and>
      Append fs1 s1 (map of_char ''hi'') = ((10, 13, None), fs2, s2)"
    by (simp add: eval_defs)
qed

text \<open>The general part at \<open>hello\<close> on the new store.\<close>

theorem Append_postcondition_witness:
  "fst (Append (empty_fs 100) store0 (map of_char ''hello'')) = (13, 0, None) \<and>
   size_s (snd (snd (Append (empty_fs 100) store0 (map of_char ''hello'')))) = 13 \<and>
   stream (fst (snd (Append (empty_fs 100) store0 (map of_char ''hello''))))
          (snd (snd (Append (empty_fs 100) store0 (map of_char ''hello''))))
     = [0, 0, 0, 0, 0, 0, 0, 5] @ map of_char ''hello''"
proof -
  obtain n pos fs' s' where a:
    "Append (empty_fs 100) store0 (map of_char ''hello'') = ((n, pos, None), fs', s')"
    by (simp add: eval_defs)
  have pz: "positioned (empty_fs 100) (file_s store0)"
    by (simp add: positioned_def eval_defs)
  from Append_postcondition [of "empty_fs 100" store0 "map of_char ''hello''" n pos fs' s' 100] a pz
  have "n = 13" "pos = 0" "size_s s' = 13"
    "stream fs' s' = stream (empty_fs 100) store0 @ PutUint64 5 @ map of_char ''hello''"
    by (simp_all add: store0_def)
  then show ?thesis using a by (simp add: stream_def eval_defs)
qed

text \<open>
  C9, as the code has it.  The empty payload.  On a store in working order (open,
  no write has failed, the handle writes at the end of its file, \<open>size\<close> counts
  file and buffer) with room on the storage for eight more
  bytes, \<open>Append\<close> of the empty payload succeeds, returns 8 bytes written at
  position \<open>size\<close>, \<open>size\<close> and the stream grow by exactly 8, and the \<open>Read\<close>
  at that position returns the empty payload.
\<close>

theorem Append_empty_payload:
  assumes "store_ok fs s" and "unat (size_s s) + 8 \<le> quota fs"
  shows "\<exists>fs' s'. Append fs s [] = ((8, size_s s, None), fs', s') \<and>
     size_s s' = size_s s + 8 \<and> unat (size_s s') = unat (size_s s) + 8 \<and>
     length (stream fs' s') = length (stream fs s) + 8 \<and>
     fst (Read fs' s' (size_s s)) = Inr []"
proof -
  from Append_ok [OF assms(1), of "[]"] assms(2)
  obtain fs' s' where a: "Append fs s [] = ((8, size_s s, None), fs', s')" by auto
  have room: "unat (size_s s) + 8 + length ([] :: byte list) \<le> quota fs" using assms(2) by simp
  note ok' = Append_store_ok [OF assms(1) room a]
  note ok1 = ok'(1) [unfolded store_ok_def]
  have "fst (Read fs' s' (size_s s)) = Inr []"
  proof (rule Read_record)
    show "stream fs' s' = stream fs s @ PutUint64 (of_nat (length ([] :: byte list))) @ [] @ []"
      using ok'(2) by simp
    show "length (stream fs s) = unat (size_s s)" using assms(1) by (simp add: store_ok_def)
    show "length ([] :: byte list) \<le> maxAlloc" by simp
  qed (use ok1 in simp_all)
  moreover have "size_s s' = size_s s + 8" using Append_success [OF a] by simp
  ultimately show ?thesis using a ok'(2,3) by simp
qed

text \<open>
  C9 as stated fails outside these conditions.  On storage with room for 5 bytes,
  \<open>Append\<close> of the empty payload succeeds from the buffer, the \<open>Read 0\<close> that
  follows fails with the write error of its flush, and a second \<open>Append\<close> of the
  empty payload then fails with the writer's kept error.  After a successful
  \<open>Close\<close>, \<open>Append\<close> of the empty payload returns \<open>(8, 0)\<close> and \<open>Read 0\<close>
  fails with the closed-file error.
\<close>

theorem empty_Append_Read_fails:
  "newStore (empty_fs 5) handle0 = Inr store0 \<and>
   fst (Append (empty_fs 5) store0 []) = (8, 0, None) \<and>
   fst (Read (fst (snd (Append (empty_fs 5) store0 [])))
             (snd (snd (Append (empty_fs 5) store0 []))) 0) = Inl ErrNoSpace \<and>
   fst (Append (fst (snd (Read (fst (snd (Append (empty_fs 5) store0 [])))
                               (snd (snd (Append (empty_fs 5) store0 []))) 0)))
               (snd (snd (Read (fst (snd (Append (empty_fs 5) store0 [])))
                               (snd (snd (Append (empty_fs 5) store0 []))) 0))) [])
     = (0, 0, Some ErrNoSpace) \<and>
   fst (Close (empty_fs 100) store0) = None \<and>
   fst (Append (empty_fs 100) (snd (snd (Close (empty_fs 100) store0))) []) = (8, 0, None) \<and>
   fst (Read (fst (snd (Append (empty_fs 100) (snd (snd (Close (empty_fs 100) store0))) [])))
             (snd (snd (Append (empty_fs 100) (snd (snd (Close (empty_fs 100) store0))) []))) 0)
     = Inl ErrClosed"
  by (simp add: Close_store0) (simp add: eval_defs)

text \<open>The empty payload on the new store.\<close>

theorem Append_empty_payload_witness:
  "store_ok (empty_fs 100) store0 \<and>
   fst (Append (empty_fs 100) store0 []) = (8, 0, None) \<and>
   size_s (snd (snd (Append (empty_fs 100) store0 []))) = 8 \<and>
   fst (Read (fst (snd (Append (empty_fs 100) store0 [])))
          (snd (snd (Append (empty_fs 100) store0 []))) 0) = Inr []"
proof -
  have ok: "store_ok (empty_fs 100) store0" by (rule store_ok_store0) simp
  have room: "unat (size_s store0) + 8 \<le> quota (empty_fs 100)" by (simp add: eval_defs)
  from Append_empty_payload [OF ok room] ok show ?thesis by (auto simp: store0_def)
qed

text \<open>
  C2.  Positions.  In a run of \<open>Append\<close> calls on one store, a successful call
  returns \<open>8 + len p\<close> bytes written and a failed one \<open>0\<close>, and the position a
  successful call returns is the store's initial size plus the bytes written by the
  calls before it.  So two successful calls in a row satisfy
  \<open>position (i + 1) = position i + 8 + len (p i)\<close>, and when no call fails the
  position of each call is the initial size plus the sum of \<open>8 + len p\<close> over the
  payloads before it.  The sums are those of \<open>uint64\<close>.
\<close>

theorem Append_positions:
  assumes "Appends fs s ps = (rs, fs', s')"
  shows "length rs = length ps \<and>
    (\<forall>i<length ps. err_of (rs ! i) = None \<longrightarrow>
       n_of (rs ! i) = 8 + of_nat (length (ps ! i)) \<and>
       pos_of (rs ! i) = size_s s + sum_list (map n_of (take i rs))) \<and>
    (\<forall>i<length ps. err_of (rs ! i) \<noteq> None \<longrightarrow> n_of (rs ! i) = 0) \<and>
    (\<forall>i. Suc i < length ps \<and> err_of (rs ! i) = None \<and> err_of (rs ! Suc i) = None \<longrightarrow>
       pos_of (rs ! Suc i) = pos_of (rs ! i) + 8 + of_nat (length (ps ! i))) \<and>
    ((\<forall>r\<in>set rs. err_of r = None) \<longrightarrow>
       (\<forall>i<length ps. pos_of (rs ! i)
           = size_s s + sum_list (map (\<lambda>p. 8 + of_nat (length p)) (take i ps))))"
proof (intro conjI allI impI)
  show len: "length rs = length ps" using Appends_length [OF assms] .
  show "n_of (rs ! i) = 8 + of_nat (length (ps ! i))" if "i < length ps" "err_of (rs ! i) = None" for i
    using Appends_nth(1) [OF assms that(1)] that(2) by simp
  show "pos_of (rs ! i) = size_s s + sum_list (map n_of (take i rs))"
    if "i < length ps" "err_of (rs ! i) = None" for i
    using Appends_nth(2) [OF assms that] .
  show "n_of (rs ! i) = 0" if "i < length ps" "err_of (rs ! i) \<noteq> None" for i
    using Appends_nth(1) [OF assms that(1)] that(2) by simp
  show "pos_of (rs ! Suc i) = pos_of (rs ! i) + 8 + of_nat (length (ps ! i))"
    if "Suc i < length ps \<and> err_of (rs ! i) = None \<and> err_of (rs ! Suc i) = None" for i
  proof -
    from that have i: "i < length ps" "Suc i < length ps" "i < length rs"
      and e: "err_of (rs ! i) = None" "err_of (rs ! Suc i) = None" using len by auto
    have "pos_of (rs ! Suc i) = size_s s + sum_list (map n_of (take (Suc i) rs))"
      using Appends_nth(2) [OF assms i(2) e(2)] .
    also have "\<dots> = size_s s + sum_list (map n_of (take i rs)) + n_of (rs ! i)"
      using i(3) by (simp add: take_Suc_conv_app_nth add.assoc)
    also have "\<dots> = pos_of (rs ! i) + n_of (rs ! i)"
      using Appends_nth(2) [OF assms i(1) e(1)] by simp
    also have "\<dots> = pos_of (rs ! i) + 8 + of_nat (length (ps ! i))"
      using Appends_nth(1) [OF assms i(1)] e(1) by (simp add: add.assoc)
    finally show ?thesis .
  qed
  show "pos_of (rs ! i) = size_s s + sum_list (map (\<lambda>p. 8 + of_nat (length p)) (take i ps))"
    if all: "\<forall>r\<in>set rs. err_of r = None" and i: "i < length ps" for i
  proof -
    have e: "err_of (rs ! j) = None" if "j < length rs" for j
      using all that by simp
    have "map n_of (take i rs) = map (\<lambda>p. 8 + of_nat (length p)) (take i ps)"
    proof (rule nth_equalityI)
      show "length (map n_of (take i rs)) = length (map (\<lambda>p. 8 + of_nat (length p)) (take i ps))"
        using len by simp
      fix j assume "j < length (map n_of (take i rs))"
      then have j: "j < i" "j < length ps" "j < length rs" using len i by simp_all
      show "map n_of (take i rs) ! j = map (\<lambda>p. 8 + of_nat (length p)) (take i ps) ! j"
        using Appends_nth(1) [OF assms j(2)] e [OF j(3)] j by simp
    qed
    then show ?thesis using Appends_nth(2) [OF assms i] e i len by simp
  qed
qed

text \<open>Three records on a new store: positions 0, 13 and 23.\<close>

theorem Append_positions_witness:
  "fst (Appends (empty_fs 100) store0 [map of_char ''hello'', map of_char ''hi'', []])
     = [(13, 0, None), (10, 13, None), (8, 23, None)]"
proof -
  obtain rs fs' s' where a:
    "Appends (empty_fs 100) store0 [map of_char ''hello'', map of_char ''hi'', []] = (rs, fs', s')"
    and rs: "rs = [(13, 0, None), (10, 13, None), (8, 23, None)]"
    by (simp add: eval_defs)
  from Append_positions [OF a] show ?thesis using a rs by simp
qed

text \<open>
  C10.  \<open>Read\<close> and \<open>ReadAt\<close> change nothing but by their flush: whatever the
  store state and the arguments, \<open>size\<close> is as before, the state after the call is
  the state after \<open>Flush\<close>, the contents the file will have once the buffer is
  written out are as before (for a handle at the end of its file: the stream is as
  before), no other file, no path and not the closed flag change.  A \<open>Read\<close> or
  \<open>ReadAt\<close> made afterwards returns what it would have returned in its place and
  leaves the same state, so these calls commute.
\<close>

theorem Read_ReadAt_frame:
  assumes "Read fs s pos = (r, fs', s') \<or> ReadAt fs s d off = (r', fs', s')"
  shows "size_s s' = size_s s \<and>
    (\<exists>e. Writer_Flush fs (file_s s) (buf s) = (e, fs', file_s s', buf s')) \<and>
    pending fs' (file_s s') (wbuf (buf s')) = pending fs (file_s s) (wbuf (buf s)) \<and>
    (positioned fs (file_s s) \<longrightarrow> stream fs' s' = stream fs s) \<and>
    (\<forall>i. i \<noteq> fino (file_s s) \<longrightarrow> inodes fs' i = inodes fs i) \<and>
    paths fs' = paths fs \<and> fclosed (file_s s') = fclosed (file_s s) \<and>
    (\<forall>pos2. Read fs' s' pos2 = Read fs s pos2) \<and>
    (\<forall>d2 off2. ReadAt fs' s' d2 off2 = ReadAt fs s d2 off2)"
proof -
  obtain e fs1 f1 b1 where fl: "Writer_Flush fs (file_s s) (buf s) = (e, fs1, f1, b1)"
    by (cases "Writer_Flush fs (file_s s) (buf s)") auto
  have st: "fs' = fs1" "s' = s\<lparr>file_s := f1, buf := b1\<rparr>"
    using assms Read_state [OF fl, of pos] ReadAt_state [OF fl, of d off] by auto
  note ap = Flush_appended [OF fl]
  have "stream fs' s' = stream fs s" if "positioned fs (file_s s)"
    using Flush_stream(1) [OF fl that] st by (simp add: stream_def)
  then show ?thesis
    using st fl ap Read_after_Flush [OF fl] ReadAt_after_Flush [OF fl]
    by (simp add: appended_def)
qed

text \<open>A store with one buffered record, read back at position 0.\<close>

theorem Read_ReadAt_frame_witness:
  "size_s (snd (snd (Read (empty_fs 100)
      (store0\<lparr>buf := \<lparr>wbuf = [0, 0, 0, 0, 0, 0, 0, 1, 7], werr = None\<rparr>, size_s := 9\<rparr>) 0))) = 9 \<and>
   stream (fst (snd (Read (empty_fs 100)
      (store0\<lparr>buf := \<lparr>wbuf = [0, 0, 0, 0, 0, 0, 0, 1, 7], werr = None\<rparr>, size_s := 9\<rparr>) 0)))
    (snd (snd (Read (empty_fs 100)
      (store0\<lparr>buf := \<lparr>wbuf = [0, 0, 0, 0, 0, 0, 0, 1, 7], werr = None\<rparr>, size_s := 9\<rparr>) 0)))
     = [0, 0, 0, 0, 0, 0, 0, 1, 7] \<and>
   fst (Read (empty_fs 100)
      (store0\<lparr>buf := \<lparr>wbuf = [0, 0, 0, 0, 0, 0, 0, 1, 7], werr = None\<rparr>, size_s := 9\<rparr>) 0) = Inr [7]"
proof -
  define s where "s = store0\<lparr>buf := \<lparr>wbuf = [0, 0, 0, 0, 0, 0, 0, 1, 7], werr = None\<rparr>, size_s := 9\<rparr>"
  define fs1 where "fs1 = (empty_fs 100)\<lparr>inodes := (\<lambda>_. [])(0 := [0, 0, 0, 0, 0, 0, 0, 1, 7])\<rparr>"
  define s1 where "s1 = s\<lparr>file_s := handle0\<lparr>foffset := 9\<rparr>, buf := \<lparr>wbuf = [], werr = None\<rparr>\<rparr>"
  have a: "Read (empty_fs 100) s 0 = (Inr [7], fs1, s1)"
    by (simp add: s_def fs1_def s1_def eval_defs)
  have pz: "positioned (empty_fs 100) (file_s s)" by (simp add: s_def positioned_def eval_defs)
  have st: "stream (empty_fs 100) s = [0, 0, 0, 0, 0, 0, 0, 1, 7]"
    by (simp add: s_def stream_def eval_defs)
  from Read_ReadAt_frame [of "empty_fs 100" s 0 "Inr [7]" fs1 s1] a pz
  have "size_s s1 = size_s s" "stream fs1 s1 = stream (empty_fs 100) s" by simp_all
  then show ?thesis unfolding s_def [symmetric] using a st by (simp add: s_def)
qed

text \<open>
  C6, as the code has it.  A successful \<open>Close\<close> leaves the handle closed and the
  buffer empty.  On a store whose handle is closed, \<open>Read\<close> and \<open>Close\<close> always
  return an error (the closed-file error of the file, a negative offset, or the
  writer's earlier error), and the handle stays closed whatever is called.  The
  store keeps no record of being closed, so the calls that do not reach the file
  still succeed: \<open>ReadAt\<close> exactly when the writer has met no error, nothing
  is buffered, the destination is empty and the offset is not negative; \<open>Append\<close> exactly when the writer has met
  no error and the record fits in the buffer with what is already there.
\<close>

theorem closed_store_operations:
  "(Close fs0 s0 = (None, fs, s) \<longrightarrow>
      fclosed (file_s s) \<and> wbuf (buf s) = [] \<and> werr (buf s) = None) \<and>
   (fclosed (file_s s) \<longrightarrow>
      (\<exists>e. fst (Read fs s pos) = Inl e \<and>
           (e = ErrClosed \<or> e = ErrNegativeOffset \<or> werr (buf s) = Some e)) \<and>
      (\<exists>e. fst (Close fs s) = Some e \<and> (e = ErrClosed \<or> werr (buf s) = Some e)) \<and>
      (snd (snd (fst (ReadAt fs s d off))) = None \<longleftrightarrow>
         werr (buf s) = None \<and> wbuf (buf s) = [] \<and> d = [] \<and> 0 \<le> sint off) \<and>
      (snd (snd (fst (Append fs s p))) = None \<longleftrightarrow>
         werr (buf s) = None \<and> length (wbuf (buf s)) + 8 + length p \<le> defaultBufSize) \<and>
      fclosed (file_s (snd (snd (Read fs s pos)))) \<and>
      fclosed (file_s (snd (snd (Close fs s)))) \<and>
      fclosed (file_s (snd (snd (ReadAt fs s d off)))) \<and>
      fclosed (file_s (snd (snd (Append fs s p)))))"
proof (intro conjI impI)
  assume c: "Close fs0 s0 = (None, fs, s)"
  obtain e fs1 f1 b1 where fl: "Writer_Flush fs0 (file_s s0) (buf s0) = (e, fs1, f1, b1)"
    by (cases "Writer_Flush fs0 (file_s s0) (buf s0)") auto
  from c fl have e: "e = None" by (auto simp: Close_def split: option.splits prod.splits)
  from c fl e Flush_werr [OF fl]
  show "fclosed (file_s s)" "wbuf (buf s) = []" "werr (buf s) = None"
    by (auto simp: Close_def File_Close_def split: if_splits)
next
  assume c: "fclosed (file_s s)"
  note fl = Flush_closed [OF c, of fs "buf s"]
  show "\<exists>e. fst (Read fs s pos) = Inl e \<and>
           (e = ErrClosed \<or> e = ErrNegativeOffset \<or> werr (buf s) = Some e)"
    using c by (auto simp: Read_def fl File_ReadAt_def lenWidth_def Let_def split: option.splits)
  show "\<exists>e. fst (Close fs s) = Some e \<and> (e = ErrClosed \<or> werr (buf s) = Some e)"
    using c by (auto simp: Close_def fl File_Close_def split: option.splits)
  show "snd (snd (fst (ReadAt fs s d off))) = None \<longleftrightarrow>
         werr (buf s) = None \<and> wbuf (buf s) = [] \<and> d = [] \<and> 0 \<le> sint off"
    using c by (auto simp: ReadAt_def fl File_ReadAt_def split: option.splits)
  show "snd (snd (fst (Append fs s p))) = None \<longleftrightarrow>
         werr (buf s) = None \<and> length (wbuf (buf s)) + 8 + length p \<le> defaultBufSize"
    using Append_closed [OF c, of p fs] by auto
  show "fclosed (file_s (snd (snd (Read fs s pos))))"
    using c by (auto simp: Read_def fl Let_def split: option.splits prod.splits)
  show "fclosed (file_s (snd (snd (Close fs s))))"
    using c by (auto simp: Close_def fl File_Close_def split: option.splits)
  show "fclosed (file_s (snd (snd (ReadAt fs s d off))))"
    using c by (auto simp: ReadAt_def fl split: option.splits)
  show "fclosed (file_s (snd (snd (Append fs s p))))"
    using Append_closed [OF c, of p fs] by simp
qed

text \<open>
  C6 as stated fails: after the successful \<open>Close\<close> of a new store,
  \<open>Append "hi"\<close> returns \<open>(10, 0)\<close> and no error and moves \<open>size\<close> to 10, and
  \<open>ReadAt\<close> with an empty destination returns \<open>(0, nil)\<close>.
\<close>

theorem Append_after_Close_succeeds:
  "fst (Close (empty_fs 100) store0) = None \<and>
   fst (Append (fst (snd (Close (empty_fs 100) store0))) (snd (snd (Close (empty_fs 100) store0)))
          (map of_char ''hi'')) = (10, 0, None) \<and>
   size_s (snd (snd (Append (fst (snd (Close (empty_fs 100) store0)))
          (snd (snd (Close (empty_fs 100) store0))) (map of_char ''hi'')))) = 10 \<and>
   fst (ReadAt (fst (snd (Close (empty_fs 100) store0))) (snd (snd (Close (empty_fs 100) store0)))
          [] 0) = ([], 0, None)"
  by (simp add: Close_store0) (simp add: eval_defs)

text \<open>The new store, closed: \<open>Read\<close>, \<open>Close\<close> and a one-byte \<open>ReadAt\<close> fail.\<close>

theorem closed_store_operations_witness:
  "fclosed (file_s (snd (snd (Close (empty_fs 100) store0)))) \<and>
   fst (Read (empty_fs 100) (snd (snd (Close (empty_fs 100) store0))) 0) = Inl ErrClosed \<and>
   fst (Close (empty_fs 100) (snd (snd (Close (empty_fs 100) store0)))) = Some ErrClosed \<and>
   snd (snd (fst (ReadAt (empty_fs 100) (snd (snd (Close (empty_fs 100) store0))) [0] 0))) \<noteq> None"
proof -
  define s where "s = snd (snd (Close (empty_fs 100) store0))"
  have c: "Close (empty_fs 100) store0 = (None, empty_fs 100, s)"
    by (simp add: s_def Close_store0)
  note T = closed_store_operations [of "empty_fs 100" store0 "empty_fs 100" s 0 "[0]" 0 "[]"]
  from T c have cl: "fclosed (file_s s)" by blast
  from T cl have ra: "snd (snd (fst (ReadAt (empty_fs 100) s [0] 0))) \<noteq> None" by simp
  have "fst (Read (empty_fs 100) s 0) = Inl ErrClosed"
    by (simp add: s_def Close_store0) (simp add: eval_defs)
  moreover have "fst (Close (empty_fs 100) s) = Some ErrClosed"
    by (simp add: s_def Close_store0) (simp add: eval_defs)
  ultimately show ?thesis using cl ra unfolding s_def by simp
qed






text \<open>
  C4, as the code has it.  Over every run of \<open>Append\<close>, \<open>Read\<close>, \<open>ReadAt\<close> and
  \<open>Close\<close>, \<open>size\<close> is its initial value plus \<open>8 + len p\<close> for every successful
  \<open>Append p\<close> (in \<open>uint64\<close>).  From a store in working order, \<open>size\<close> never
  decreases from one point of the run to a later one, and never exceeds the length
  of the stream (file, then buffer).  As long as no \<open>Append\<close> of the run has
  failed, \<open>size\<close> equals the length of the stream, and whenever a flush of the
  buffer then succeeds, the file is exactly \<open>size\<close> bytes long.
\<close>

theorem size_accounting:
  assumes "run ops fs s = (es, fs', s')"
  shows "length es = length ops \<and>
    size_s s' = size_s s + sum_list (map2 appended_bytes ops es) \<and>
    (store_ok fs s \<longrightarrow>
       (\<forall>i j. i \<le> j \<longrightarrow>
          unat (size_s (snd (snd (run (take i ops) fs s))))
            \<le> unat (size_s (snd (snd (run (take j ops) fs s))))) \<and>
       unat (size_s s) \<le> unat (size_s s') \<and>
       unat (size_s s') \<le> length (stream fs' s') \<and>
       ((\<forall>(x, e)\<in>set (zip ops es). \<not> failed_append x e) \<longrightarrow>
          unat (size_s s') = length (stream fs' s') \<and>
          (\<forall>fs2 f2 b2. Writer_Flush fs' (file_s s') (buf s') = (None, fs2, f2, b2) \<longrightarrow>
             length (inodes fs2 (fino f2)) = unat (size_s s'))))"
proof (intro conjI impI allI)
  show "length es = length ops" using run_length [OF assms] .
  show "size_s s' = size_s s + sum_list (map2 appended_bytes ops es)" using run_size [OF assms] .
next
  fix i j :: nat
  assume ok: "store_ok fs s" and ij: "i \<le> j"
  show "unat (size_s (snd (snd (run (take i ops) fs s))))
      \<le> unat (size_s (snd (snd (run (take j ops) fs s))))"
    using run_prefix_mono [OF store_ok_accounted [OF ok, THEN conjunct1] ij] .
next
  assume ok: "store_ok fs s"
  note ra = run_accounted [OF assms store_ok_accounted [OF ok, THEN conjunct1]]
  show "unat (size_s s) \<le> unat (size_s s')" using ra by simp
  show "unat (size_s s') \<le> length (stream fs' s')" using ra by (simp add: accounted_def)
  assume nf: "\<forall>(x, e)\<in>set (zip ops es). \<not> failed_append x e"
  show eq: "unat (size_s s') = length (stream fs' s')"
    using ra nf store_ok_accounted [OF ok] by simp
  fix fs2 f2 b2
  assume fl: "Writer_Flush fs' (file_s s') (buf s') = (None, fs2, f2, b2)"
  have "positioned fs' (file_s s')" using ra by (simp add: accounted_def)
  from Flush_file_length [OF fl this] eq
  show "length (inodes fs2 (fino f2)) = unat (size_s s')" by (simp add: stream_def)
qed

text \<open>
  C4 as stated fails: \<open>size\<close> is not always the length the file will have.
  On storage with room for 100 bytes, an \<open>Append\<close> of 5000 bytes fills the
  buffer, its flush stores 100 bytes and fails, and \<open>Append\<close> returns the error
  with \<open>size\<close> still 0, while the file holds 100 bytes and the buffer 3996 more.
  And in the run \<open>Append "hello", Close, Append "hi"\<close> every call succeeds and
  \<open>size\<close> ends at 23, while the closed file keeps its 13 bytes.
\<close>

theorem flushed_length_differs_from_size:
  "store_ok (empty_fs 100) store0 \<and>
   fst (Append (empty_fs 100) store0 (replicate 5000 0)) = (0, 0, Some ErrNoSpace) \<and>
   size_s (snd (snd (Append (empty_fs 100) store0 (replicate 5000 0)))) = 0 \<and>
   length (inodes (fst (snd (Append (empty_fs 100) store0 (replicate 5000 0)))) 0) = 100 \<and>
   length (wbuf (buf (snd (snd (Append (empty_fs 100) store0 (replicate 5000 0)))))) = 3996 \<and>
   fst (run [OpAppend (map of_char ''hello''), OpClose, OpAppend (map of_char ''hi'')]
          (empty_fs 100) store0) = [None, None, None] \<and>
   size_s (snd (snd (run [OpAppend (map of_char ''hello''), OpClose, OpAppend (map of_char ''hi'')]
          (empty_fs 100) store0))) = 23 \<and>
   length (inodes (fst (snd (run [OpAppend (map of_char ''hello''), OpClose,
          OpAppend (map of_char ''hi'')] (empty_fs 100) store0))) 0) = 13"
proof -
  have "store_ok (empty_fs 100) store0" by (rule store_ok_store0) simp
  moreover have "Append (empty_fs 100) store0 (replicate 5000 0)
      = ((0, 0, Some ErrNoSpace),
         (empty_fs 100)\<lparr>inodes := (\<lambda>_. [])(0 := PutUint64 5000 @ replicate 92 0)\<rparr>,
         store0\<lparr>file_s := handle0\<lparr>foffset := 100\<rparr>,
           buf := \<lparr>wbuf = replicate 3996 0, werr = Some ErrNoSpace\<rparr>\<rparr>)"
    by (simp add: eval_defs)
  moreover have "run [OpAppend (map of_char ''hello''), OpClose, OpAppend (map of_char ''hi'')]
          (empty_fs 100) store0
      = ([None, None, None],
         (empty_fs 100)\<lparr>inodes := (\<lambda>_. [])(0 := PutUint64 5 @ map of_char ''hello'')\<rparr>,
         \<lparr>file_s = handle0\<lparr>foffset := 13, fclosed := True\<rparr>,
          buf = \<lparr>wbuf = PutUint64 2 @ map of_char ''hi'', werr = None\<rparr>, size_s = 23\<rparr>)"
    by (simp add: eval_defs)
  ultimately show ?thesis by (simp add: eval_defs)
qed

text \<open>
  Two records, read, read at an offset, closed: \<open>size\<close> is 23, as is the file;
  and \<open>size\<close> after one call is no more than after three.
\<close>

theorem size_accounting_witness:
  "fst (run [OpAppend (map of_char ''hello''), OpRead 0, OpAppend (map of_char ''hi''),
             OpReadAt [0, 0] 3, OpClose] (empty_fs 100) store0) = [None, None, None, None, None] \<and>
   size_s (snd (snd (run [OpAppend (map of_char ''hello''), OpRead 0, OpAppend (map of_char ''hi''),
             OpReadAt [0, 0] 3, OpClose] (empty_fs 100) store0))) = 23 \<and>
   length (inodes (fst (snd (run [OpAppend (map of_char ''hello''), OpRead 0,
             OpAppend (map of_char ''hi''), OpReadAt [0, 0] 3, OpClose] (empty_fs 100) store0))) 0)
     = 23 \<and>
   unat (size_s (snd (snd (run (take 1 [OpAppend (map of_char ''hello''), OpRead 0,
             OpAppend (map of_char ''hi''), OpReadAt [0, 0] 3, OpClose]) (empty_fs 100) store0))))
     \<le> unat (size_s (snd (snd (run (take 3 [OpAppend (map of_char ''hello''), OpRead 0,
             OpAppend (map of_char ''hi''), OpReadAt [0, 0] 3, OpClose]) (empty_fs 100) store0))))"
proof -
  define ops where "ops = [OpAppend (map of_char ''hello''), OpRead 0, OpAppend (map of_char ''hi''),
             OpReadAt [0, 0] 3, OpClose]"
  define fs1 where "fs1 = (empty_fs 100)\<lparr>inodes := (\<lambda>_. [])(0 :=
     PutUint64 5 @ map of_char ''hello'' @ PutUint64 2 @ map of_char ''hi'')\<rparr>"
  define s1 where "s1 = \<lparr>file_s = handle0\<lparr>foffset := 23, fclosed := True\<rparr>,
     buf = \<lparr>wbuf = [], werr = None\<rparr>, size_s = 23\<rparr>"
  have r: "run ops (empty_fs 100) store0 = ([None, None, None, None, None], fs1, s1)"
    by (simp add: ops_def fs1_def s1_def eval_defs)
  have ok: "store_ok (empty_fs 100) store0" by (rule store_ok_store0) simp
  have nf: "\<forall>(x, e)\<in>set (zip ops [None, None, None, None, None]). \<not> failed_append x e"
    by (simp add: ops_def failed_append_def)
  have fl: "Writer_Flush fs1 (file_s s1) (buf s1) = (None, fs1, file_s s1, buf s1)"
    by (simp add: s1_def Writer_Flush_def Buffered_def)
  note T = size_accounting [OF r]
  from T ok nf fl have len: "length (inodes fs1 (fino (file_s s1))) = unat (size_s s1)" by blast
  from T ok have mono: "unat (size_s (snd (snd (run (take 1 ops) (empty_fs 100) store0))))
      \<le> unat (size_s (snd (snd (run (take 3 ops) (empty_fs 100) store0))))" by simp
  from len have "length (inodes fs1 0) = 23" by (simp add: s1_def handle0_def)
  then show ?thesis unfolding ops_def [symmetric] using r mono by (simp add: s1_def)
qed

end
